theory Spec2Isabelle
  imports Complex_Main "HOL-Library.Char_ord" "HOL-Library.List_Lexorder" "HOL-Library.Sublist"
begin

section \<open>Strings, as the script uses them\<close>

text \<open>
  File and folder names are Python \<open>str\<close> values. They are modelled as \<open>string\<close>
  (a list of \<open>char\<close>), one \<open>char\<close> per code point, so the model covers names whose
  code points are below 256. Python compares strings code point by code point, a proper
  prefix being smaller; this is the order of \<open>HOL-Library.List_Lexorder\<close> over
  \<open>HOL-Library.Char_ord\<close>, and \<open>sort\<close> gives what \<open>sorted\<close> gives on a list of names.
\<close>

text \<open>\<open>str.lower()\<close> on code points below 256: A-Z and the Latin-1 capitals move by 32.\<close>

definition lower_char :: "char \<Rightarrow> char" where
  "lower_char c =
     (let n = (of_char c :: nat)
      in if (65 \<le> n \<and> n \<le> 90) \<or> (192 \<le> n \<and> n \<le> 222 \<and> n \<noteq> 215)
         then char_of (n + 32) else c)"

definition lower :: "string \<Rightarrow> string" where
  "lower s = map lower_char s"

text \<open>\<open>str.rfind\<close> of a single character: the last index, or \<open>-1\<close>.\<close>

definition rfind :: "string \<Rightarrow> char \<Rightarrow> int" where
  "rfind p c =
     (let js = filter (\<lambda>j. p ! j = c) [0..<length p]
      in if js = [] then - 1 else int (last js))"

text \<open>
  \<open>os.path.splitext\<close> (\<open>genericpath._splitext\<close> with \<open>sep = '/'\<close>, no \<open>altsep\<close>,
  \<open>extsep = '.'\<close>): the extension starts at the last dot, provided that dot comes after
  the last separator and some character between them is not a dot.
\<close>

definition splitext :: "string \<Rightarrow> string \<times> string" where
  "splitext p =
     (let sepIndex = rfind p (CHR ''/'');
          dotIndex = rfind p (CHR ''.'')
      in if dotIndex > sepIndex \<and>
            list_ex (\<lambda>k. p ! k \<noteq> CHR ''.'') [nat (sepIndex + 1)..<nat dotIndex]
         then (take (nat dotIndex) p, drop (nat dotIndex) p)
         else (p, []))"

text \<open>The decimal digits of a number, and the format \<open>{contador:02d}\<close>.\<close>

fun string_of_nat :: "nat \<Rightarrow> string" where
  "string_of_nat n =
     (if n < 10 then [char_of (48 + n)]
      else string_of_nat (n div 10) @ [char_of (48 + n mod 10)])"

declare string_of_nat.simps [simp del]

definition fmt02 :: "nat \<Rightarrow> string" where
  "fmt02 n = (if n < 10 then CHR ''0'' # string_of_nat n else string_of_nat n)"

text \<open>\<open>nombre_cientifico.replace(" ", "_")\<close>\<close>

definition replace_spaces :: "string \<Rightarrow> string" where
  "replace_spaces s = map (\<lambda>c. if c = CHR '' '' then CHR ''_'' else c) s"


section \<open>The file system\<close>

text \<open>
  The model holds two levels: the base folder, an association list from names to nodes,
  and for each folder in it the list of the names inside, in the order \<open>os.listdir\<close>
  happens to return them. Names are compared exactly (a case-sensitive file system),
  there are no symbolic links, and nothing but the script changes the folders during a
  run. A well-formed listing has no name twice.
\<close>

datatype os_error =
    FileNotFoundError
  | NotADirectoryError
  | IsADirectoryError
  | DirectoryNotEmpty
  | FileNameTooLong
  | ValueError
  | PathOutsideFolder

datatype node = File | Dir "string list"

type_synonym base_dir = "(string \<times> node) list"

text \<open>What the script prints, one event per \<open>print\<close> call.\<close>

datatype event =
    NoMatch string
  | FolderRenamed string string
  | ImageRenamed string string
  | AlreadyExists string

text \<open>
  \<open>os.path.join\<close> of a folder and a name stays in that folder when the name is a single
  path component: not empty, not \<open>.\<close> or \<open>..\<close>, with no separator and no NUL.
\<close>

definition plain_name :: "string \<Rightarrow> bool" where
  "plain_name s \<longleftrightarrow>
     s \<noteq> [] \<and> s \<noteq> ''.'' \<and> s \<noteq> ''..'' \<and> CHR ''/'' \<notin> set s \<and> CHR 0x00 \<notin> set s"

text \<open>
  A name longer than \<open>NAME_MAX\<close> bytes is refused with ENAMETOOLONG (an \<open>OSError\<close>);
  \<open>NAME_MAX\<close> is 255 on the usual Linux file systems. Python encodes the names in UTF-8:
  one byte for a code point below 128, two bytes for the others the model covers.
\<close>

definition encoded_length :: "string \<Rightarrow> nat" where
  "encoded_length s = sum_list (map (\<lambda>c. if (of_char c :: nat) < 128 then 1 else 2) s)"

definition name_max :: nat where
  "name_max = 255"

text \<open>
  What \<open>os.rename\<close> does with a destination that is not a single path component
  of the folder whose names are \<open>listed\<close>. A NUL makes Python raise \<open>ValueError\<close> before
  any system call. A path that goes on after a first component which is a plain name
  but not an entry of the folder fails where that component is looked up: ENAMETOOLONG
  when it is too long, ENOENT otherwise. In every other case (an empty name, \<open>.\<close>, \<open>..\<close>,
  a path through an existing entry, through \<open>.\<close> or \<open>..\<close>, an absolute path, a trailing
  separator) the path is the folder itself, its parent, or a place below or outside it,
  and what happens (in most cases an \<open>OSError\<close>: ENOTDIR, EINVAL, EBUSY, ENOTEMPTY; a
  move into another folder when the path happens to exist) depends on folders that the
  two levels do not hold. The model issues no such rename: the run ends at that call
  with \<open>PathOutsideFolder\<close> and the state reached, and the script is followed no
  further.
\<close>

definition path_error :: "string list \<Rightarrow> string \<Rightarrow> os_error option" where
  "path_error listed destino =
     (if CHR 0x00 \<in> set destino then Some ValueError
      else if plain_name destino then None
      else (let first = takeWhile (\<lambda>c. c \<noteq> CHR ''/'') destino;
                rest = dropWhile (\<lambda>c. c \<noteq> CHR ''/'') destino
            in if plain_name first \<and> first \<notin> set listed \<and> list_ex (\<lambda>c. c \<noteq> CHR ''/'') rest
               then (if name_max < encoded_length first then Some FileNameTooLong
                     else Some FileNotFoundError)
               else Some PathOutsideFolder))"

text \<open>
  \<open>os.rename(origen, destino)\<close> inside one folder (POSIX \<open>rename\<close>): the source must
  exist, the new name must not be too long, and an existing destination file is
  replaced. \<open>os.path.exists(destino)\<close> is then membership in the listing; for a name that
  is too long or is not a single path component it is \<open>False\<close>, as it is for the
  listing of a real folder with no folder inside.

  The operating system can refuse a rename for reasons that are not in the names
  (permissions, a read-only or full file system). These are not modelled; such a
  refusal ends the run like the exceptions that are. The theorems on the renames
  therefore speak of the renames made, whether the loop ends normally or by an exception,
  and none of them states for all inputs that a rename succeeds.
\<close>

definition rename_entry :: "string list \<Rightarrow> string \<Rightarrow> string \<Rightarrow> os_error + string list" where
  "rename_entry files origen destino =
     (case path_error files destino of
        Some e \<Rightarrow> Inl e
      | None \<Rightarrow>
          if origen \<notin> set files then Inl FileNotFoundError
          else if name_max < encoded_length destino then Inl FileNameTooLong
          else if origen = destino then Inr files
          else Inr (map (\<lambda>x. if x = origen then destino else x)
                     (filter (\<lambda>x. x \<noteq> destino) files)))"

lemma path_error_None: "path_error listed destino = None \<longleftrightarrow> plain_name destino"
  by (auto simp: path_error_def plain_name_def Let_def)

lemma rename_entry_plain:
  "plain_name destino \<Longrightarrow>
   rename_entry files origen destino =
     (if origen \<notin> set files then Inl FileNotFoundError
      else if name_max < encoded_length destino then Inl FileNameTooLong
      else if origen = destino then Inr files
      else Inr (map (\<lambda>x. if x = origen then destino else x)
                 (filter (\<lambda>x. x \<noteq> destino) files)))"
  using path_error_None[of files destino] by (simp add: rename_entry_def)

lemma rename_entry_not_plain:
  "\<not> plain_name destino \<Longrightarrow> \<exists>e. rename_entry files origen destino = Inl e"
  using path_error_None[of files destino] by (cases "path_error files destino") (auto simp: rename_entry_def)


section \<open>Renumbering the images of one folder (nombre.py, lines 36-51)\<close>

definition extensiones_validas :: "string list" where
  "extensiones_validas = [''.jpg'', ''.jpeg'', ''.png'', ''.JPG'']"

text \<open>\<open>ext = os.path.splitext(archivo)[1].lower()\<close>\<close>

definition ext_of :: "string \<Rightarrow> string" where
  "ext_of archivo = lower (snd (splitext archivo))"

definition eligible :: "string \<Rightarrow> bool" where
  "eligible archivo = (ext_of archivo \<in> set extensiones_validas)"

text \<open>\<open>nuevo_nombre = f"{nombre_carpeta_objetivo}_{contador:02d}{ext}"\<close>\<close>

definition nuevo_nombre :: "string \<Rightarrow> nat \<Rightarrow> string \<Rightarrow> string" where
  "nuevo_nombre objetivo contador archivo = objetivo @ ''_'' @ fmt02 contador @ ext_of archivo"

text \<open>
  The state of the loop: the folder's content, \<open>contador\<close>, and the lines printed so far.
  An exception of \<open>os.rename\<close> ends the loop with the state at that moment.
\<close>

type_synonym loop_state = "string list \<times> nat \<times> event list"

fun rename_images :: "string \<Rightarrow> string list \<Rightarrow> loop_state \<Rightarrow> (os_error \<times> loop_state) + loop_state" where
  "rename_images objetivo [] st = Inr st"
| "rename_images objetivo (archivo # imagenes) (files, contador, out) =
     (if eligible archivo then
        (if nuevo_nombre objetivo contador archivo \<notin> set files then
           (case rename_entry files archivo (nuevo_nombre objetivo contador archivo) of
              Inl e \<Rightarrow> Inl (e, files, contador, out)
            | Inr files' \<Rightarrow>
                rename_images objetivo imagenes
                  (files', contador + 1,
                   out @ [ImageRenamed archivo (nuevo_nombre objetivo contador archivo)]))
         else rename_images objetivo imagenes
                (files, contador, out @ [AlreadyExists (nuevo_nombre objetivo contador archivo)]))
      else rename_images objetivo imagenes (files, contador, out))"

text \<open>Lines 36-38: the listing is taken once, sorted, and the counter starts at 1.\<close>

definition renumber :: "string \<Rightarrow> string list \<Rightarrow> (os_error \<times> loop_state) + loop_state" where
  "renumber objetivo files = rename_images objetivo (sort files) (files, 1, [])"

text \<open>The state a loop, a step or a run ends in, with or without an exception.\<close>

definition outcome_state :: "(os_error \<times> 'a) + 'a \<Rightarrow> 'a" where
  "outcome_state r = (case r of Inl (e, st) \<Rightarrow> st | Inr st \<Rightarrow> st)"


section \<open>The similarity of two names (difflib.SequenceMatcher)\<close>

text \<open>
  \<open>get_close_matches\<close> builds a \<open>SequenceMatcher\<close> with no junk predicate and
  \<open>autojunk\<close> on, with the possibility as sequence \<open>a\<close> and the word as sequence \<open>b\<close>.
  \<open>b2j\<close> maps a character to the ascending list of its positions in \<open>b\<close>; when \<open>b\<close>
  has 200 characters or more, a character on more than \<open>n // 100 + 1\<close> positions is
  "popular" and gets no entry. No character is junk.
\<close>

definition b2j :: "string \<Rightarrow> char \<Rightarrow> nat list" where
  "b2j b elt =
     (let idxs = filter (\<lambda>i. b ! i = elt) [0..<length b]
      in if 200 \<le> length b \<and> length b div 100 + 1 < length idxs then [] else idxs)"

type_synonym match = "nat \<times> nat \<times> nat"

text \<open>
  The inner loop of \<open>find_longest_match\<close> over the positions \<open>j\<close> of \<open>a[i]\<close> in \<open>b\<close>:
  \<open>k = newj2len[j] = j2len.get(j-1, 0) + 1\<close>, and the best block moves to
  \<open>(i-k+1, j-k+1, k)\<close> when \<open>k\<close> is larger than its size. The key \<open>-1\<close> is never in the
  dictionary. \<open>k\<close> is at most \<open>i + 1\<close> and \<open>j + 1\<close>, so \<open>i + 1 - k\<close> on naturals is the
  source's \<open>i - k + 1\<close>.
\<close>

fun inner_loop ::
  "(nat \<rightharpoonup> nat) \<Rightarrow> nat \<Rightarrow> nat \<Rightarrow> nat \<Rightarrow> nat list \<Rightarrow> match \<times> (nat \<rightharpoonup> nat) \<Rightarrow> match \<times> (nat \<rightharpoonup> nat)" where
  "inner_loop j2len i blo bhi [] st = st"
| "inner_loop j2len i blo bhi (j # js) (best, newj2len) =
     (if j < blo then inner_loop j2len i blo bhi js (best, newj2len)
      else if bhi \<le> j then (best, newj2len)
      else (let k = (case (if j = 0 then None else j2len (j - 1)) of None \<Rightarrow> 0 | Some v \<Rightarrow> v) + 1
            in inner_loop j2len i blo bhi js
                 (if snd (snd best) < k then (i + 1 - k, j + 1 - k, k) else best,
                  newj2len(j \<mapsto> k))))"

text \<open>The outer loop, \<open>for i in range(alo, ahi)\<close>, with \<open>j2len = newj2len\<close> after each row.\<close>

fun outer_loop ::
  "string \<Rightarrow> string \<Rightarrow> nat \<Rightarrow> nat \<Rightarrow> nat list \<Rightarrow> match \<times> (nat \<rightharpoonup> nat) \<Rightarrow> match \<times> (nat \<rightharpoonup> nat)" where
  "outer_loop a b blo bhi [] st = st"
| "outer_loop a b blo bhi (i # rows) (best, j2len) =
     outer_loop a b blo bhi rows
       (inner_loop j2len i blo bhi (b2j b (a ! i)) (best, Map.empty))"

text \<open>
  The two loops that extend the best block over matching characters on each side
  (popular characters are matched here only). The last two loops of the source extend
  over junk characters and never run, since no character is junk.
\<close>

function extend_left :: "string \<Rightarrow> string \<Rightarrow> nat \<Rightarrow> nat \<Rightarrow> match \<Rightarrow> match" where
  "extend_left a b alo blo (besti, bestj, bestsize) =
     (if alo < besti \<and> blo < bestj \<and> a ! (besti - 1) = b ! (bestj - 1)
      then extend_left a b alo blo (besti - 1, bestj - 1, bestsize + 1)
      else (besti, bestj, bestsize))"
  by pat_completeness auto
termination
  by (relation "measure (\<lambda>(a, b, alo, blo, besti, bestj, bestsize). besti)") auto

function extend_right :: "string \<Rightarrow> string \<Rightarrow> nat \<Rightarrow> nat \<Rightarrow> match \<Rightarrow> match" where
  "extend_right a b ahi bhi (besti, bestj, bestsize) =
     (if besti + bestsize < ahi \<and> bestj + bestsize < bhi
         \<and> a ! (besti + bestsize) = b ! (bestj + bestsize)
      then extend_right a b ahi bhi (besti, bestj, bestsize + 1)
      else (besti, bestj, bestsize))"
  by pat_completeness auto
termination
  by (relation "measure (\<lambda>(a, b, ahi, bhi, besti, bestj, bestsize). ahi - (besti + bestsize))") auto

declare extend_left.simps [simp del] extend_right.simps [simp del]

definition find_longest_match :: "string \<Rightarrow> string \<Rightarrow> nat \<Rightarrow> nat \<Rightarrow> nat \<Rightarrow> nat \<Rightarrow> match" where
  "find_longest_match a b alo ahi blo bhi =
     extend_right a b ahi bhi
       (extend_left a b alo blo
          (fst (outer_loop a b blo bhi [alo..<ahi] ((alo, blo, 0), Map.empty))))"


subsection \<open>What \<open>find_longest_match\<close> returns\<close>

text \<open>
  The invariants of the two loops. After the rows below \<open>n\<close>, every entry \<open>j2len[j] = k\<close>
  is a block of \<open>k\<close> equal characters ending at \<open>a[n-1]\<close> and \<open>b[j]\<close>, inside the two
  ranges; the best block so far lies inside the ranges and matches character by
  character, and an empty one sits at \<open>(alo, blo)\<close>.
\<close>

definition row_inv :: "string \<Rightarrow> string \<Rightarrow> nat \<Rightarrow> nat \<Rightarrow> nat \<Rightarrow> nat \<Rightarrow> (nat \<rightharpoonup> nat) \<Rightarrow> bool" where
  "row_inv a b alo blo bhi n d \<longleftrightarrow>
     (\<forall>j k. d j = Some k \<longrightarrow>
        1 \<le> k \<and> k + alo \<le> n \<and> k + blo \<le> j + 1 \<and> j < bhi \<and> (\<forall>m<k. a ! (n - 1 - m) = b ! (j - m)))"

definition best_inv :: "string \<Rightarrow> string \<Rightarrow> nat \<Rightarrow> nat \<Rightarrow> nat \<Rightarrow> nat \<Rightarrow> match \<Rightarrow> bool" where
  "best_inv a b alo blo bhi n best \<longleftrightarrow>
     (case best of (bi, bj, bs) \<Rightarrow>
        alo \<le> bi \<and> bi + bs \<le> n \<and> blo \<le> bj \<and> (0 < bs \<longrightarrow> bj + bs \<le> bhi)
        \<and> (bs = 0 \<longrightarrow> bi = alo \<and> bj = blo)
        \<and> (\<forall>m<bs. a ! (bi + m) = b ! (bj + m)))"

lemma b2j_sound: "j \<in> set (b2j b c) \<Longrightarrow> b ! j = c \<and> j < length b"
  by (auto simp: b2j_def Let_def split: if_splits)

lemma best_inv_mono: "best_inv a b alo blo bhi n best \<Longrightarrow> n \<le> n' \<Longrightarrow> best_inv a b alo blo bhi n' best"
  by (auto simp: best_inv_def)

lemma row_inv_empty: "row_inv a b alo blo bhi n Map.empty"
  by (simp add: row_inv_def)

lemma row_invD:
  "row_inv a b alo blo bhi n d \<Longrightarrow> d j = Some k \<Longrightarrow>
     1 \<le> k \<and> k + alo \<le> n \<and> k + blo \<le> j + 1 \<and> j < bhi \<and> (\<forall>m<k. a ! (n - 1 - m) = b ! (j - m))"
  unfolding row_inv_def by blast

lemma inner_loop_inv:
  assumes "row_inv a b alo blo bhi i d" "alo \<le> i" "\<forall>j\<in>set js. b ! j = a ! i"
    and "best_inv a b alo blo bhi (Suc i) best" "row_inv a b alo blo bhi (Suc i) new"
    and "inner_loop d i blo bhi js (best, new) = (best', new')"
  shows "best_inv a b alo blo bhi (Suc i) best' \<and> row_inv a b alo blo bhi (Suc i) new'"
  using assms(3-)
proof (induction js arbitrary: best new)
  case Nil
  then show ?case by simp
next
  case (Cons j js)
  show ?case
  proof (cases "j < blo \<or> bhi \<le> j")
    case True
    with Cons show ?thesis by (auto split: if_splits)
  next
    case False
    define k where "k = (case (if j = 0 then None else d (j - 1)) of None \<Rightarrow> 0 | Some v \<Rightarrow> v) + 1"
    have jb: "blo \<le> j" "j < bhi" using False by auto
    have eq: "b ! j = a ! i" using Cons.prems(1) by simp
    have prev: "k = 1 \<or> (0 < j \<and> d (j - 1) = Some (k - 1) \<and> 1 < k)"
      using assms(1) by (auto simp: k_def row_inv_def split: option.splits)
    have k1: "1 \<le> k" by (simp add: k_def)
    have ka: "k + alo \<le> Suc i" using prev assms(2) by (auto dest!: row_invD[OF assms(1)])
    have kb: "k + blo \<le> j + 1" using prev jb by (auto dest!: row_invD[OF assms(1)])
    have km: "\<forall>m<k. a ! (i - m) = b ! (j - m)"
    proof (intro allI impI)
      fix m assume m: "m < k"
      show "a ! (i - m) = b ! (j - m)"
      proof (cases m)
        case 0
        then show ?thesis using eq by simp
      next
        case (Suc m')
        with m prev have d: "0 < j" "d (j - 1) = Some (k - 1)" "m' < k - 1" by auto
        with row_invD[OF assms(1) d(2)] have "a ! (i - 1 - m') = b ! (j - 1 - m')" by blast
        then show ?thesis using Suc by simp
      qed
    qed
    have new': "row_inv a b alo blo bhi (Suc i) (new(j \<mapsto> k))"
      using Cons.prems(3) k1 ka kb km jb by (auto simp: row_inv_def)
    have best': "best_inv a b alo blo bhi (Suc i) (if snd (snd best) < k then (i + 1 - k, j + 1 - k, k) else best)"
    proof (cases "snd (snd best) < k")
      case True
      have "\<forall>m<k. a ! (i + 1 - k + m) = b ! (j + 1 - k + m)"
      proof (intro allI impI)
        fix m assume m: "m < k"
        then have "k - 1 - m < k" by simp
        with km have h: "a ! (i - (k - 1 - m)) = b ! (j - (k - 1 - m))" by blast
        have e1: "i - (k - 1 - m) = i + 1 - k + m" using m ka by arith
        have e2: "j - (k - 1 - m) = j + 1 - k + m" using m kb by arith
        show "a ! (i + 1 - k + m) = b ! (j + 1 - k + m)" using h unfolding e1 e2 .
      qed
      moreover have "alo \<le> i + 1 - k" "i + 1 - k + k \<le> Suc i" "blo \<le> j + 1 - k" "j + 1 - k + k \<le> bhi"
        using ka kb jb k1 by arith+
      ultimately show ?thesis using True unfolding best_inv_def by (simp only: if_True split) blast
    next
      case False
      then show ?thesis using Cons.prems(2) by simp
    qed
    have "inner_loop d i blo bhi js (if snd (snd best) < k then (i + 1 - k, j + 1 - k, k) else best, new(j \<mapsto> k)) = (best', new')"
    proof -
      have nj: "\<not> j < blo" "\<not> bhi \<le> j" using False by auto
      show ?thesis using Cons.prems(4)
        by (simp only: inner_loop.simps nj if_False Let_def k_def)
    qed
    from Cons.IH[OF _ best' new' this] Cons.prems(1) show ?thesis by simp
  qed
qed

lemma outer_loop_inv:
  assumes "row_inv a b alo blo bhi n d" "alo \<le> n" "best_inv a b alo blo bhi n best"
    and "outer_loop a b blo bhi [n..<ahi] (best, d) = (best', d')"
  shows "best_inv a b alo blo bhi (max n ahi) best'"
  using assms
proof (induction "ahi - n" arbitrary: n best d)
  case 0
  then show ?case by (simp add: max_def)
next
  case (Suc x)
  then have lt: "n < ahi" by simp
  obtain best1 d1 where in1: "inner_loop d n blo bhi (b2j b (a ! n)) (best, Map.empty) = (best1, d1)"
    by (cases "inner_loop d n blo bhi (b2j b (a ! n)) (best, Map.empty)") auto
  have "best_inv a b alo blo bhi (Suc n) best1 \<and> row_inv a b alo blo bhi (Suc n) d1"
    using inner_loop_inv[OF Suc.prems(1) Suc.prems(2) _ best_inv_mono[OF Suc.prems(3)] row_inv_empty in1]
    by (auto dest: b2j_sound)
  moreover have "outer_loop a b blo bhi [Suc n..<ahi] (best1, d1) = (best', d')"
    using Suc.prems(4) lt in1 by (simp add: upt_conv_Cons)
  moreover have "x = ahi - Suc n" using Suc.hyps(2) by simp
  ultimately have "best_inv a b alo blo bhi (max (Suc n) ahi) best'"
    using Suc.hyps(1)[of "Suc n" d1 best1] Suc.prems(2) by simp
  then show ?case using lt by (simp add: max_def)
qed

lemma best_invI:
  "alo \<le> bi \<Longrightarrow> bi + bs \<le> n \<Longrightarrow> blo \<le> bj \<Longrightarrow> bj + bs \<le> bhi \<Longrightarrow> 0 < bs \<Longrightarrow>
   (\<And>m. m < bs \<Longrightarrow> a ! (bi + m) = b ! (bj + m)) \<Longrightarrow> best_inv a b alo blo bhi n (bi, bj, bs)"
  by (simp add: best_inv_def)

lemma best_invD:
  assumes "best_inv a b alo blo bhi n (bi, bj, bs)"
  shows "alo \<le> bi" "bi + bs \<le> n" "blo \<le> bj" "0 < bs \<Longrightarrow> bj + bs \<le> bhi"
    "bs = 0 \<Longrightarrow> bi = alo \<and> bj = blo" "m < bs \<Longrightarrow> a ! (bi + m) = b ! (bj + m)"
  using assms by (simp_all add: best_inv_def)

lemma extend_left_inv:
  "best_inv a b alo blo bhi n best \<Longrightarrow> best_inv a b alo blo bhi n (extend_left a b alo blo best)"
proof (induction a b alo blo best rule: extend_left.induct)
  case (1 a b alo blo besti bestj bestsize)
  note inv = best_invD[OF "1.prems"]
  show ?case
  proof (cases "alo < besti \<and> blo < bestj \<and> a ! (besti - 1) = b ! (bestj - 1)")
    case True
    have pos: "0 < bestsize" using True inv(5) by (cases bestsize) auto
    have "best_inv a b alo blo bhi n (besti - 1, bestj - 1, bestsize + 1)"
    proof (rule best_invI)
      show "alo \<le> besti - 1" using True by arith
      show "besti - 1 + (bestsize + 1) \<le> n" using True inv(2) by arith
      show "blo \<le> bestj - 1" using True by arith
      show "bestj - 1 + (bestsize + 1) \<le> bhi" using True inv(4)[OF pos] by arith
      show "0 < bestsize + 1" by simp
      fix m assume m: "m < bestsize + 1"
      show "a ! (besti - 1 + m) = b ! (bestj - 1 + m)"
      proof (cases m)
        case 0
        then show ?thesis using True by simp
      next
        case (Suc m')
        then have "m' < bestsize" using m by simp
        then have "a ! (besti + m') = b ! (bestj + m')" by (rule inv(6))
        moreover have "besti - 1 + m = besti + m'" "bestj - 1 + m = bestj + m'" using True Suc by arith+
        ultimately show ?thesis by simp
      qed
    qed
    from "1.IH"[OF True this] True show ?thesis by (simp add: extend_left.simps[of a b alo blo besti])
  next
    case False
    then have "extend_left a b alo blo (besti, bestj, bestsize) = (besti, bestj, bestsize)"
      by (subst extend_left.simps) (simp only: if_False)
    then show ?thesis using "1.prems" by simp
  qed
qed

lemma extend_right_inv:
  "best_inv a b alo blo bhi n best \<Longrightarrow> ahi \<le> n \<Longrightarrow> best_inv a b alo blo bhi n (extend_right a b ahi bhi best)"
proof (induction a b ahi bhi best rule: extend_right.induct)
  case (1 a b ahi bhi besti bestj bestsize)
  note inv = best_invD[OF "1.prems"(1)]
  show ?case
  proof (cases "besti + bestsize < ahi \<and> bestj + bestsize < bhi \<and> a ! (besti + bestsize) = b ! (bestj + bestsize)")
    case True
    have "best_inv a b alo blo bhi n (besti, bestj, bestsize + 1)"
    proof (rule best_invI)
      show "alo \<le> besti" by (rule inv(1))
      show "besti + (bestsize + 1) \<le> n" using True "1.prems"(2) by arith
      show "blo \<le> bestj" by (rule inv(3))
      show "bestj + (bestsize + 1) \<le> bhi" using True by arith
      show "0 < bestsize + 1" by simp
      fix m assume m: "m < bestsize + 1"
      then have "m < bestsize \<or> m = bestsize" by arith
      then show "a ! (besti + m) = b ! (bestj + m)"
        using True inv(6) by blast
    qed
    from "1.IH"[OF True this "1.prems"(2)] True show ?thesis
      by (simp add: extend_right.simps[of a b ahi bhi besti])
  next
    case False
    then have "extend_right a b ahi bhi (besti, bestj, bestsize) = (besti, bestj, bestsize)"
      by (subst extend_right.simps) (simp only: if_False)
    then show ?thesis using "1.prems" by simp
  qed
qed

lemma find_longest_match_inv:
  "best_inv a b alo blo bhi (max alo ahi) (find_longest_match a b alo ahi blo bhi)"
proof -
  obtain best d where o: "outer_loop a b blo bhi [alo..<ahi] ((alo, blo, 0), Map.empty) = (best, d)"
    by (cases "outer_loop a b blo bhi [alo..<ahi] ((alo, blo, 0), Map.empty)") auto
  have "best_inv a b alo blo bhi alo (alo, blo, 0)" by (simp add: best_inv_def)
  from outer_loop_inv[OF row_inv_empty _ this o] have "best_inv a b alo blo bhi (max alo ahi) best" by simp
  then show ?thesis
    unfolding find_longest_match_def o fst_conv
    by (intro extend_right_inv extend_left_inv) simp_all
qed

lemma find_longest_match_range:
  assumes "find_longest_match a b alo ahi blo bhi = (i, j, k)"
  shows "alo \<le> i" "blo \<le> j" "0 < k \<Longrightarrow> i + k \<le> ahi" "0 < k \<Longrightarrow> j + k \<le> bhi"
    "m < k \<Longrightarrow> a ! (i + m) = b ! (j + m)" "i + k \<le> max alo ahi" "k = 0 \<Longrightarrow> i = alo \<and> j = blo"
proof -
  have inv: "best_inv a b alo blo bhi (max alo ahi) (i, j, k)"
    using find_longest_match_inv[of a b alo blo bhi ahi] by (simp only: assms)
  note d = best_invD[OF inv]
  show "alo \<le> i" by (rule d(1))
  show "blo \<le> j" by (rule d(3))
  show "0 < k \<Longrightarrow> i + k \<le> ahi" using d(1,2) by (simp add: max_def split: if_splits)
  show "0 < k \<Longrightarrow> j + k \<le> bhi" by (rule d(4))
  show "m < k \<Longrightarrow> a ! (i + m) = b ! (j + m)" by (rule d(6))
  show "i + k \<le> max alo ahi" by (rule d(2))
  show "k = 0 \<Longrightarrow> i = alo \<and> j = blo" by (rule d(5))
qed

text \<open>
  \<open>get_matching_blocks\<close> takes the longest block of the whole range, then works on the
  ranges to its left and to its right (from a queue, in some order), and \<open>ratio\<close> sums
  the sizes of all blocks found. The sum does not depend on the order, so the model
  recurses directly. It terminates because a non-empty block lies inside its range.
\<close>

function matching_size :: "string \<Rightarrow> string \<Rightarrow> nat \<Rightarrow> nat \<Rightarrow> nat \<Rightarrow> nat \<Rightarrow> nat" where
  "matching_size a b alo ahi blo bhi =
     (case find_longest_match a b alo ahi blo bhi of
        (i, j, k) \<Rightarrow>
          if k = 0 then 0
          else k + (if alo < i \<and> blo < j then matching_size a b alo i blo j else 0)
                 + (if i + k < ahi \<and> j + k < bhi then matching_size a b (i + k) ahi (j + k) bhi else 0))"
  by pat_completeness auto
termination
proof (relation "measure (\<lambda>(a, b, alo, ahi, blo, bhi). ahi - alo)")
  show "wf (measure (\<lambda>(a, b, alo, ahi, blo, bhi). ahi - alo))" by simp
next
  fix a b :: string and alo ahi blo bhi i j k x2
  assume "(i, x2) = find_longest_match a b alo ahi blo bhi" "(j, k) = x2" "k \<noteq> 0" "alo < i \<and> blo < j"
  then have "find_longest_match a b alo ahi blo bhi = (i, j, k)" by simp
  from find_longest_match_range(3)[OF this] \<open>k \<noteq> 0\<close> \<open>alo < i \<and> blo < j\<close>
  show "((a, b, alo, i, blo, j), a, b, alo, ahi, blo, bhi) \<in> measure (\<lambda>(a, b, alo, ahi, blo, bhi). ahi - alo)"
    by auto
next
  fix a b :: string and alo ahi blo bhi i j k x2
  assume "(i, x2) = find_longest_match a b alo ahi blo bhi" "(j, k) = x2" "k \<noteq> 0" "i + k < ahi \<and> j + k < bhi"
  then have "find_longest_match a b alo ahi blo bhi = (i, j, k)" by simp
  from find_longest_match_range(1)[OF this] \<open>k \<noteq> 0\<close> \<open>i + k < ahi \<and> j + k < bhi\<close>
  show "((a, b, i + k, ahi, j + k, bhi), a, b, alo, ahi, blo, bhi) \<in> measure (\<lambda>(a, b, alo, ahi, blo, bhi). ahi - alo)"
    by auto
qed

declare matching_size.simps [simp del]

text \<open>\<open>_calculate_ratio\<close>, with exact rational arithmetic in place of doubles.\<close>

definition calculate_ratio :: "nat \<Rightarrow> nat \<Rightarrow> rat" where
  "calculate_ratio matches len = (if len \<noteq> 0 then 2 * of_nat matches / of_nat len else 1)"

definition ratio :: "string \<Rightarrow> string \<Rightarrow> rat" where
  "ratio a b = calculate_ratio (matching_size a b 0 (length a) 0 (length b)) (length a + length b)"

text \<open>
  \<open>quick_ratio\<close>: \<open>fullbcount\<close> counts each character of \<open>b\<close>; \<open>avail[elt]\<close> is how many
  of them are still unused while the characters of \<open>a\<close> go by.
\<close>

fun quick_loop :: "(char \<Rightarrow> nat) \<Rightarrow> string \<Rightarrow> (char \<rightharpoonup> int) \<times> nat \<Rightarrow> (char \<rightharpoonup> int) \<times> nat" where
  "quick_loop fullbcount [] st = st"
| "quick_loop fullbcount (elt # rest) (avail, matches) =
     (let numb = (case avail elt of Some v \<Rightarrow> v | None \<Rightarrow> int (fullbcount elt))
      in quick_loop fullbcount rest
           (avail(elt \<mapsto> numb - 1), if 0 < numb then matches + 1 else matches))"

definition quick_ratio :: "string \<Rightarrow> string \<Rightarrow> rat" where
  "quick_ratio a b =
     calculate_ratio (snd (quick_loop (count_list b) a (Map.empty, 0))) (length a + length b)"

definition real_quick_ratio :: "string \<Rightarrow> string \<Rightarrow> rat" where
  "real_quick_ratio a b = calculate_ratio (min (length a) (length b)) (length a + length b)"


section \<open>difflib.get_close_matches(word, possibilities, n=1, cutoff=0.6)\<close>

text \<open>
  The ratios are doubles in the source, \<open>2.0 * matches / length\<close>, compared with the
  double \<open>0.6\<close> and with each other. Division rounds to the nearest double, so for
  names of any length a file system allows, the comparisons of the doubles are the
  comparisons of the exact quotients; the model computes with rationals.
\<close>

definition cutoff :: rat where
  "cutoff = 6 / 10"

text \<open>The list \<open>result\<close> of pairs \<open>(s.ratio(), x)\<close>, in the order of \<open>possibilities\<close>.\<close>

definition scored :: "string \<Rightarrow> string list \<Rightarrow> (rat \<times> string) list" where
  "scored word possibilities =
     map (\<lambda>x. (ratio x word, x))
       (filter (\<lambda>x. cutoff \<le> real_quick_ratio x word \<and> cutoff \<le> quick_ratio x word
                     \<and> cutoff \<le> ratio x word) possibilities)"

text \<open>
  \<open>heapq.nlargest(1, result)\<close> is \<open>max(result)\<close>: the running maximum is replaced by an
  item that is greater, and Python compares the pairs lexicographically.
\<close>

definition tuple_gt :: "rat \<times> string \<Rightarrow> rat \<times> string \<Rightarrow> bool" where
  "tuple_gt y m = (fst m < fst y \<or> (fst y = fst m \<and> snd m < snd y))"

fun py_max :: "rat \<times> string \<Rightarrow> (rat \<times> string) list \<Rightarrow> rat \<times> string" where
  "py_max m [] = m"
| "py_max m (y # ys) = py_max (if tuple_gt y m then y else m) ys"

definition get_close_matches :: "string \<Rightarrow> string list \<Rightarrow> string list" where
  "get_close_matches word possibilities =
     (case scored word possibilities of [] \<Rightarrow> [] | r # rs \<Rightarrow> [snd (py_max r rs)])"


section \<open>The base folder\<close>

definition listdir :: "base_dir \<Rightarrow> string list" where
  "listdir fs = map fst fs"

text \<open>\<open>os.listdir\<close> of an entry of the base folder.\<close>

definition listdir_in :: "base_dir \<Rightarrow> string \<Rightarrow> os_error + string list" where
  "listdir_in fs name =
     (case map_of fs name of
        None \<Rightarrow> Inl FileNotFoundError
      | Some File \<Rightarrow> Inl NotADirectoryError
      | Some (Dir files) \<Rightarrow> Inr files)"

definition put_dir :: "base_dir \<Rightarrow> string \<Rightarrow> string list \<Rightarrow> base_dir" where
  "put_dir fs name files = map (\<lambda>(k, v). if k = name then (k, Dir files) else (k, v)) fs"

text \<open>
  \<open>os.rename\<close> of an entry of the base folder (POSIX \<open>rename\<close>): a destination that
  is not a single path component is treated as said above; a missing source fails, and
  so does a new name that is too long; a free destination takes the entry; an existing
  destination is replaced when both are files or when it is an empty folder and the
  source is a folder, and the call fails otherwise.
\<close>

definition move_entry :: "base_dir \<Rightarrow> string \<Rightarrow> string \<Rightarrow> base_dir" where
  "move_entry fs src dst =
     map (\<lambda>(k, v). if k = src then (dst, v) else (k, v)) (filter (\<lambda>(k, v). k \<noteq> dst) fs)"

definition os_rename :: "base_dir \<Rightarrow> string \<Rightarrow> string \<Rightarrow> os_error + base_dir" where
  "os_rename fs src dst =
     (case path_error (listdir fs) dst of
        Some e \<Rightarrow> Inl e
      | None \<Rightarrow>
         (case map_of fs src of
            None \<Rightarrow> Inl FileNotFoundError
          | Some n \<Rightarrow>
              if name_max < encoded_length dst then Inl FileNameTooLong
              else if src = dst then Inr fs
              else (case (n, map_of fs dst) of
                      (_, None) \<Rightarrow> Inr (move_entry fs src dst)
                    | (File, Some File) \<Rightarrow> Inr (move_entry fs src dst)
                    | (File, Some (Dir _)) \<Rightarrow> Inl IsADirectoryError
                    | (Dir _, Some File) \<Rightarrow> Inl NotADirectoryError
                    | (Dir _, Some (Dir [])) \<Rightarrow> Inr (move_entry fs src dst)
                    | (Dir _, Some (Dir (_ # _))) \<Rightarrow> Inl DirectoryNotEmpty)))"




section \<open>The reconciliation loop (nombre.py, lines 11-51)\<close>

text \<open>
  Line 13: the column \<open>nombre_cientifico\<close> of the sheet, a missing cell being \<open>None\<close>;
  \<open>dropna().tolist()\<close> keeps the other cells, in their order.
\<close>

definition nombres_cientificos :: "string option list \<Rightarrow> string list" where
  "nombres_cientificos columna = map the (filter (\<lambda>celda. celda \<noteq> None) columna)"

text \<open>The state of a run: the base folder and the lines printed so far.\<close>

type_synonym run_state = "base_dir \<times> event list"

text \<open>Lines 27-33: the folder found is renamed when its path differs from the target's.\<close>

definition rename_folder :: "run_state \<Rightarrow> string \<Rightarrow> string \<Rightarrow> (os_error \<times> run_state) + run_state" where
  "rename_folder st carpeta_encontrada objetivo =
     (case st of (fs, out) \<Rightarrow>
        if carpeta_encontrada \<noteq> objetivo then
          (case os_rename fs carpeta_encontrada objetivo of
             Inl e \<Rightarrow> Inl (e, fs, out)
           | Inr fs' \<Rightarrow> Inr (fs', out @ [FolderRenamed carpeta_encontrada objetivo]))
        else Inr (fs, out))"

text \<open>Lines 36-51 on the folder \<open>ruta_nueva\<close>; the renames act on the folder as they happen.\<close>

definition rename_folder_images :: "run_state \<Rightarrow> string \<Rightarrow> (os_error \<times> run_state) + run_state" where
  "rename_folder_images st objetivo =
     (case st of (fs, out) \<Rightarrow>
        (case listdir_in fs objetivo of
           Inl e \<Rightarrow> Inl (e, fs, out)
         | Inr files \<Rightarrow>
             (case renumber objetivo files of
                Inl (e, files', contador, printed) \<Rightarrow> Inl (e, put_dir fs objetivo files', out @ printed)
              | Inr (files', contador, printed) \<Rightarrow> Inr (put_dir fs objetivo files', out @ printed))))"

text \<open>The body of the loop over the names, lines 17-51.\<close>

definition process_name :: "run_state \<Rightarrow> string \<Rightarrow> (os_error \<times> run_state) + run_state" where
  "process_name st nombre_cientifico =
     (let objetivo = replace_spaces nombre_cientifico;
          carpetas_actuales = listdir (fst st);
          coincidencias = get_close_matches objetivo carpetas_actuales
      in case coincidencias of
           [] \<Rightarrow> Inr (fst st, snd st @ [NoMatch nombre_cientifico])
         | carpeta_encontrada # _ \<Rightarrow>
             (case rename_folder st carpeta_encontrada objetivo of
                Inl err \<Rightarrow> Inl err
              | Inr st' \<Rightarrow> rename_folder_images st' objetivo))"

text \<open>Line 16: the names one after the other; an exception ends the run.\<close>

fun reconcile :: "run_state \<Rightarrow> string list \<Rightarrow> (os_error \<times> run_state) + run_state" where
  "reconcile st [] = Inr st"
| "reconcile st (nombre_cientifico # rest) =
     (case process_name st nombre_cientifico of
        Inl err \<Rightarrow> Inl err
      | Inr st' \<Rightarrow> reconcile st' rest)"

text \<open>The renames among the printed lines, as pairs of the old and the new name.\<close>

definition printed_renames :: "event list \<Rightarrow> (string \<times> string) list" where
  "printed_renames out = concat (map (\<lambda>e. case e of ImageRenamed x y \<Rightarrow> [(x, y)] | _ \<Rightarrow> []) out)"


section \<open>The renumbering loop: collisions and the counter\<close>

lemma printed_renames_append [simp]: "printed_renames (xs @ ys) = printed_renames xs @ printed_renames ys"
  by (simp add: printed_renames_def)

lemma printed_renames_simps [simp]:
  "printed_renames [] = []"
  "printed_renames (ImageRenamed x y # out) = (x, y) # printed_renames out"
  "printed_renames (AlreadyExists z # out) = printed_renames out"
  "printed_renames (NoMatch z # out) = printed_renames out"
  "printed_renames (FolderRenamed x y # out) = printed_renames out"
  by (simp_all add: printed_renames_def)






section \<open>The fuzzy match\<close>

lemma py_max_mem: "py_max m ys \<in> set (m # ys)"
  by (induction ys arbitrary: m) auto

lemma scored_mem:
  "(r, x) \<in> set (scored word possibilities) \<Longrightarrow>
   x \<in> set possibilities \<and> r = ratio x word \<and> cutoff \<le> ratio x word"
  by (auto simp: scored_def)

lemma get_close_matches_cases:
  "get_close_matches word possibilities = [] \<and> scored word possibilities = []
   \<or> (\<exists>x. get_close_matches word possibilities = [x] \<and> (ratio x word, x) \<in> set (scored word possibilities))"
proof (cases "scored word possibilities")
  case Nil
  then show ?thesis by (simp add: get_close_matches_def)
next
  case (Cons r rs)
  obtain s x where p: "py_max r rs = (s, x)" by (cases "py_max r rs") auto
  have "(s, x) \<in> set (scored word possibilities)" using py_max_mem[of r rs] Cons p by simp
  moreover from this have "s = ratio x word" by (auto dest: scored_mem)
  ultimately show ?thesis using Cons p by (simp add: get_close_matches_def)
qed

lemma scored_empty: "\<forall>x\<in>set possibilities. ratio x word < cutoff \<Longrightarrow> scored word possibilities = []"
  by (auto simp: scored_def filter_empty_conv)

text \<open>
  Claim C6. \<open>get_close_matches\<close> with \<open>n = 1\<close> returns at most one name; a name it
  returns is one of the entries listed and its similarity to the word (the target name,
  spaces replaced by underscores) is at least 0.6; when every entry listed has a
  similarity below 0.6 the result is empty, which is the "no match" case.
\<close>

theorem close_match_reaches_cutoff:
  "length (get_close_matches word possibilities) \<le> 1
   \<and> (\<forall>x\<in>set (get_close_matches word possibilities). x \<in> set possibilities \<and> 6 / 10 \<le> ratio x word)
   \<and> ((\<forall>x\<in>set possibilities. ratio x word < 6 / 10) \<longrightarrow> get_close_matches word possibilities = [])"
proof (intro conjI)
  show "length (get_close_matches word possibilities) \<le> 1"
    using get_close_matches_cases[of word possibilities] by auto
  show "\<forall>x\<in>set (get_close_matches word possibilities). x \<in> set possibilities \<and> 6 / 10 \<le> ratio x word"
    using get_close_matches_cases[of word possibilities] by (auto dest: scored_mem simp: cutoff_def)
  show "(\<forall>x\<in>set possibilities. ratio x word < 6 / 10) \<longrightarrow> get_close_matches word possibilities = []"
    using scored_empty[of possibilities word] by (auto simp: cutoff_def get_close_matches_def)
qed

theorem close_match_reaches_cutoff_witness:
  "get_close_matches ''Ficus_benjamina'' [''Mimosa_pudica'', ''Ficus_benjamin''] = [''Ficus_benjamin'']
   \<and> ''Ficus_benjamin'' \<in> set [''Mimosa_pudica'', ''Ficus_benjamin'']
   \<and> 6 / 10 \<le> ratio ''Ficus_benjamin'' ''Ficus_benjamina''
   \<and> ratio ''Mimosa_pudica'' ''Zzz_unmatched_plant'' < 6 / 10
   \<and> ratio ''Ficus_benjamin'' ''Zzz_unmatched_plant'' < 6 / 10
   \<and> get_close_matches ''Zzz_unmatched_plant'' [''Mimosa_pudica'', ''Ficus_benjamin''] = []"
proof -
  let ?dirs = "[''Mimosa_pudica'', ''Ficus_benjamin'']"
  have g: "get_close_matches ''Ficus_benjamina'' ?dirs = [''Ficus_benjamin'']" by code_simp
  have r1: "ratio ''Mimosa_pudica'' ''Zzz_unmatched_plant'' < 6 / 10" by code_simp
  have r2: "ratio ''Ficus_benjamin'' ''Zzz_unmatched_plant'' < 6 / 10" by code_simp
  have low: "\<forall>x\<in>set ?dirs. ratio x ''Zzz_unmatched_plant'' < 6 / 10" using r1 r2 by simp
  note t1 = close_match_reaches_cutoff[of "''Ficus_benjamina''" ?dirs]
  note t2 = close_match_reaches_cutoff[of "''Zzz_unmatched_plant''" ?dirs]
  have a: "''Ficus_benjamin'' \<in> set ?dirs \<and> 6 / 10 \<le> ratio ''Ficus_benjamin'' ''Ficus_benjamina''"
    using t1 unfolding g by simp
  have b: "get_close_matches ''Zzz_unmatched_plant'' ?dirs = []" using t2 low by blast
  show ?thesis using g a r1 r2 b by blast
qed


section \<open>A name that matches nothing\<close>

text \<open>
  Claim C8. When no entry of the base folder reaches the similarity 0.6 with the target
  name, the step for this name changes nothing in the file system, prints the "no
  match" line and returns normally, and the run goes on with the next name from that
  state.
\<close>

theorem no_match_is_reported_and_skipped:
  assumes "\<forall>d\<in>set (listdir fs). ratio d (replace_spaces nombre) < 6 / 10"
  shows "process_name (fs, out) nombre = Inr (fs, out @ [NoMatch nombre])
         \<and> reconcile (fs, out) (nombre # rest) = reconcile (fs, out @ [NoMatch nombre]) rest"
proof -
  have "get_close_matches (replace_spaces nombre) (listdir fs) = []"
    using scored_empty[of "listdir fs" "replace_spaces nombre"] assms
    by (simp add: cutoff_def get_close_matches_def)
  then have "process_name (fs, out) nombre = Inr (fs, out @ [NoMatch nombre])"
    by (simp add: process_name_def)
  then show ?thesis by simp
qed

theorem no_match_is_reported_and_skipped_witness:
  "ratio ''Mimosa_pudica'' (replace_spaces ''Zzz unmatched plant'') < 6 / 10
   \<and> process_name ([(''Mimosa_pudica'', Dir [''img1.jpg''])], []) ''Zzz unmatched plant'' =
       Inr ([(''Mimosa_pudica'', Dir [''img1.jpg''])], [NoMatch ''Zzz unmatched plant''])
   \<and> reconcile ([(''Mimosa_pudica'', Dir [''img1.jpg''])], []) [''Zzz unmatched plant'', ''Mimosa pudica''] =
       Inr ([(''Mimosa_pudica'', Dir [''Mimosa_pudica_01.jpg''])],
            [NoMatch ''Zzz unmatched plant'', ImageRenamed ''img1.jpg'' ''Mimosa_pudica_01.jpg''])"
proof -
  let ?fs = "[(''Mimosa_pudica'', Dir [''img1.jpg''])]"
  have r: "ratio ''Mimosa_pudica'' (replace_spaces ''Zzz unmatched plant'') < 6 / 10" by code_simp
  then have h: "\<forall>d\<in>set (listdir ?fs). ratio d (replace_spaces ''Zzz unmatched plant'') < 6 / 10"
    by (simp add: listdir_def)
  note t = no_match_is_reported_and_skipped[OF h, of "[]" "[''Mimosa pudica'']"]
  have next_name: "reconcile (?fs, [] @ [NoMatch ''Zzz unmatched plant'']) [''Mimosa pudica''] =
       Inr ([(''Mimosa_pudica'', Dir [''Mimosa_pudica_01.jpg''])],
            [NoMatch ''Zzz unmatched plant'', ImageRenamed ''img1.jpg'' ''Mimosa_pudica_01.jpg''])"
    by code_simp
  show ?thesis using r t next_name by (simp only: append_Nil) 
qed


section \<open>The names read from the sheet\<close>

lemma nombres_cientificos_cells:
  "map Some (nombres_cientificos columna) = filter (\<lambda>celda. celda \<noteq> None) columna"
  by (induction columna) (auto simp: nombres_cientificos_def)

lemma reconcile_append:
  "reconcile st (antes @ despues) =
     (case reconcile st antes of Inl err \<Rightarrow> Inl err | Inr st1 \<Rightarrow> reconcile st1 despues)"
  by (induction antes arbitrary: st) (auto split: sum.splits)

text \<open>
  Claim C3, as amended. The names processed are the cells of the column that are not
  missing, in the order of the sheet and with their repetitions: a name stands in the
  sequence as many times as it stands in the column. The run takes the names one after
  the other: wherever a name stands in the sequence, first or repeated, its step is run
  on the state that the names before it have left, unless an exception has ended the
  run before.
\<close>

theorem duplicates_are_kept:
  "map Some (nombres_cientificos columna) = filter (\<lambda>celda. celda \<noteq> None) columna
   \<and> count_list (nombres_cientificos columna) nombre = count_list columna (Some nombre)
   \<and> reconcile st (antes @ nombre # despues) =
       (case reconcile st antes of
          Inl err \<Rightarrow> Inl err
        | Inr st1 \<Rightarrow>
            (case process_name st1 nombre of
               Inl err \<Rightarrow> Inl err
             | Inr st2 \<Rightarrow> reconcile st2 despues))"
proof (intro conjI)
  show "map Some (nombres_cientificos columna) = filter (\<lambda>celda. celda \<noteq> None) columna"
    by (rule nombres_cientificos_cells)
  show "count_list (nombres_cientificos columna) nombre = count_list columna (Some nombre)"
    by (induction columna) (auto simp: nombres_cientificos_def)
  show "reconcile st (antes @ nombre # despues) =
       (case reconcile st antes of
          Inl err \<Rightarrow> Inl err
        | Inr st1 \<Rightarrow>
            (case process_name st1 nombre of
               Inl err \<Rightarrow> Inl err
             | Inr st2 \<Rightarrow> reconcile st2 despues))"
    by (simp add: reconcile_append split: sum.splits)
qed

text \<open>
  The amended claim on a sheet with a repeated name and a missing cell: the second
  occurrence has its own step, on the folder that the first one has renamed.
\<close>

theorem duplicates_are_kept_witness:
  "nombres_cientificos [Some ''Mimosa pudica'', None, Some ''Mimosa pudica''] =
     [''Mimosa pudica'', ''Mimosa pudica'']
   \<and> reconcile ([(''mimosa_pudica'', Dir [''a.jpg''])], []) [''Mimosa pudica''] =
       Inr ([(''Mimosa_pudica'', Dir [''Mimosa_pudica_01.jpg''])],
            [FolderRenamed ''mimosa_pudica'' ''Mimosa_pudica'',
             ImageRenamed ''a.jpg'' ''Mimosa_pudica_01.jpg''])
   \<and> reconcile ([(''mimosa_pudica'', Dir [''a.jpg''])], []) [''Mimosa pudica'', ''Mimosa pudica''] =
       process_name
         ([(''Mimosa_pudica'', Dir [''Mimosa_pudica_01.jpg''])],
          [FolderRenamed ''mimosa_pudica'' ''Mimosa_pudica'',
           ImageRenamed ''a.jpg'' ''Mimosa_pudica_01.jpg''])
         ''Mimosa pudica''
   \<and> reconcile ([(''mimosa_pudica'', Dir [''a.jpg''])], []) [''Mimosa pudica'', ''Mimosa pudica''] =
       Inr ([(''Mimosa_pudica'', Dir [''Mimosa_pudica_01.jpg''])],
            [FolderRenamed ''mimosa_pudica'' ''Mimosa_pudica'',
             ImageRenamed ''a.jpg'' ''Mimosa_pudica_01.jpg'',
             AlreadyExists ''Mimosa_pudica_01.jpg''])"
proof -
  let ?fs = "[(''mimosa_pudica'', Dir [''a.jpg''])]"
  let ?st1 = "([(''Mimosa_pudica'', Dir [''Mimosa_pudica_01.jpg''])],
          [FolderRenamed ''mimosa_pudica'' ''Mimosa_pudica'',
           ImageRenamed ''a.jpg'' ''Mimosa_pudica_01.jpg''])"
  have n: "nombres_cientificos [Some ''Mimosa pudica'', None, Some ''Mimosa pudica''] =
     [''Mimosa pudica'', ''Mimosa pudica'']"
    by code_simp
  have r1: "reconcile (?fs, []) [''Mimosa pudica''] = Inr ?st1" by code_simp
  have p2: "process_name ?st1 ''Mimosa pudica'' =
       Inr ([(''Mimosa_pudica'', Dir [''Mimosa_pudica_01.jpg''])],
            [FolderRenamed ''mimosa_pudica'' ''Mimosa_pudica'',
             ImageRenamed ''a.jpg'' ''Mimosa_pudica_01.jpg'',
             AlreadyExists ''Mimosa_pudica_01.jpg''])"
    by code_simp
  from duplicates_are_kept[where st = "(?fs, [])" and antes = "[''Mimosa pudica'']"
      and nombre = "''Mimosa pudica''" and despues = "[]"]
  have "reconcile (?fs, []) ([''Mimosa pudica''] @ [''Mimosa pudica'']) =
       (case reconcile (?fs, []) [''Mimosa pudica''] of
          Inl err \<Rightarrow> Inl err
        | Inr st1 \<Rightarrow>
            (case process_name st1 ''Mimosa pudica'' of
               Inl err \<Rightarrow> Inl err
             | Inr st2 \<Rightarrow> reconcile st2 []))"
    by blast
  then have r2: "reconcile (?fs, []) [''Mimosa pudica'', ''Mimosa pudica''] =
      process_name ?st1 ''Mimosa pudica''"
    unfolding r1 by (simp add: p2)
  show ?thesis using n r1 r2 p2 by simp
qed

text \<open>
  Claim C3 as stated fails: a name written twice in the column is in the sequence twice,
  and its step runs twice (here it prints "no match" twice).
\<close>

theorem names_not_deduplicated:
  "\<not> distinct (nombres_cientificos [Some ''Ficus benjamina'', None, Some ''Ficus benjamina''])
   \<and> reconcile ([], []) (nombres_cientificos [Some ''Ficus benjamina'', None, Some ''Ficus benjamina'']) =
       Inr ([], [NoMatch ''Ficus benjamina'', NoMatch ''Ficus benjamina''])"
  by code_simp


section \<open>optimize_image (scripts/optimize_images.py, lines 11-54)\<close>



















section \<open>No rename replaces a file\<close>

text \<open>
  The renames printed are played again on the folder they started from: a rename whose
  new name is present at its turn, or that \<open>os.rename\<close> refuses, makes the replay
  fail.
\<close>

fun replay :: "string list \<Rightarrow> (string \<times> string) list \<Rightarrow> string list option" where
  "replay files [] = Some files"
| "replay files ((origen, destino) # rest) =
     (if destino \<in> set files then None
      else (case rename_entry files origen destino of
              Inl e \<Rightarrow> None
            | Inr files' \<Rightarrow> replay files' rest))"

lemma rename_entry_Inr:
  "rename_entry files origen destino = Inr files' \<Longrightarrow>
   origen \<in> set files \<and> plain_name destino \<and> encoded_length destino \<le> name_max"
  using rename_entry_not_plain[of destino files origen]
  by (cases "plain_name destino") (auto simp: rename_entry_plain split: if_splits)

lemma rename_entry_fresh:
  assumes "rename_entry files origen destino = Inr files'" "destino \<notin> set files"
  shows "files' = map (\<lambda>x. if x = origen then destino else x) files"
proof -
  have "filter (\<lambda>x. x \<noteq> destino) files = files" using assms(2) by (auto simp: filter_id_conv)
  moreover have "origen \<noteq> destino" using rename_entry_Inr[OF assms(1)] assms(2) by auto
  ultimately show ?thesis using assms(1) rename_entry_Inr[OF assms(1)]
    by (auto simp: rename_entry_plain split: if_splits)
qed

lemma set_rename_fresh:
  "origen \<in> set files \<Longrightarrow>
   set (map (\<lambda>x. if x = origen then destino else x) files) = insert destino (set files - {origen})"
  by auto

lemma distinct_rename_fresh:
  "distinct files \<Longrightarrow> destino \<notin> set files \<Longrightarrow>
   distinct (map (\<lambda>x. if x = origen then destino else x) files)"
  by (induction files) auto

lemma replay_append:
  "replay files (xs @ ys) = (case replay files xs of None \<Rightarrow> None | Some files' \<Rightarrow> replay files' ys)"
  by (induction xs arbitrary: files) (auto split: sum.splits)

lemma rename_images_replay:
  "\<exists>files' contador' printed.
     outcome_state (rename_images objetivo imagenes (files, contador, out)) =
       (files', contador', out @ printed)
     \<and> replay files (printed_renames printed) = Some files'
     \<and> (distinct files \<longrightarrow> distinct files')"
proof (induction imagenes arbitrary: files contador out)
  case Nil
  have "outcome_state (rename_images objetivo [] (files, contador, out)) = (files, contador, out @ [])"
    by (simp add: outcome_state_def)
  then show ?case by (intro exI[of _ files] exI[of _ contador] exI[of _ "[]"]) simp
next
  case (Cons archivo imagenes)
  let ?nuevo = "nuevo_nombre objetivo contador archivo"
  show ?case
  proof (cases "eligible archivo")
    case False
    from Cons.IH[of files contador out] show ?thesis using False by simp
  next
    case True
    show ?thesis
    proof (cases "?nuevo \<in> set files")
      case True
      from Cons.IH[of files contador "out @ [AlreadyExists ?nuevo]"]
      obtain files' contador' printed where
        ih: "outcome_state (rename_images objetivo imagenes (files, contador, out @ [AlreadyExists ?nuevo])) =
               (files', contador', (out @ [AlreadyExists ?nuevo]) @ printed)"
            "replay files (printed_renames printed) = Some files'"
            "distinct files \<longrightarrow> distinct files'"
        by blast
      have "outcome_state (rename_images objetivo (archivo # imagenes) (files, contador, out)) =
              (files', contador', out @ (AlreadyExists ?nuevo # printed))"
        using \<open>eligible archivo\<close> True ih(1) by simp
      moreover have "replay files (printed_renames (AlreadyExists ?nuevo # printed)) = Some files'"
        using ih(2) by simp
      ultimately show ?thesis using ih(3) by blast
    next
      case False
      show ?thesis
      proof (cases "rename_entry files archivo ?nuevo")
        case (Inl e)
        have "outcome_state (rename_images objetivo (archivo # imagenes) (files, contador, out)) =
                (files, contador, out @ [])"
          using \<open>eligible archivo\<close> False Inl by (simp add: outcome_state_def)
        then show ?thesis by (intro exI[of _ files] exI[of _ contador] exI[of _ "[]"]) simp
      next
        case (Inr files1)
        have f1: "files1 = map (\<lambda>x. if x = archivo then ?nuevo else x) files"
          using rename_entry_fresh[OF Inr False] .
        have d1: "distinct files \<longrightarrow> distinct files1"
          unfolding f1 using False by (simp add: distinct_rename_fresh)
        from Cons.IH[of files1 "contador + 1" "out @ [ImageRenamed archivo ?nuevo]"]
        obtain files' contador' printed where
          ih: "outcome_state (rename_images objetivo imagenes
                 (files1, contador + 1, out @ [ImageRenamed archivo ?nuevo])) =
                 (files', contador', (out @ [ImageRenamed archivo ?nuevo]) @ printed)"
              "replay files1 (printed_renames printed) = Some files'"
              "distinct files1 \<longrightarrow> distinct files'"
          by blast
        have "outcome_state (rename_images objetivo (archivo # imagenes) (files, contador, out)) =
                (files', contador', out @ (ImageRenamed archivo ?nuevo # printed))"
          using \<open>eligible archivo\<close> False Inr ih(1) by simp
        moreover have "replay files (printed_renames (ImageRenamed archivo ?nuevo # printed)) = Some files'"
          using False Inr ih(2) by simp
        ultimately show ?thesis using ih(3) d1 by blast
      qed
    qed
  qed
qed

text \<open>
  Claim C4, as amended. However the renumbering of a folder ends, normally or by an
  exception of \<open>os.rename\<close>, replaying the renames it has made, in order, on the folder
  it started from succeeds and gives the folder it ends with: at the moment of each
  rename the new name was not in the folder, so no file is replaced and no name is given
  that exists at that moment; a folder with no name twice stays so. The test is on the
  full new name, extension included; the counter alone is not tested.
\<close>

theorem renames_never_overwrite:
  "\<exists>files' contador' printed.
     outcome_state (renumber objetivo files) = (files', contador', printed)
     \<and> replay files (printed_renames printed) = Some files'
     \<and> (distinct files \<longrightarrow> distinct files')"
  using rename_images_replay[of objetivo "sort files" files 1 "[]"] by (simp add: renumber_def)

text \<open>
  The amended claim on the folder of the example, and on a folder whose target name leaves
  no room for the suffix: the rename of the first image is refused and nothing was
  renamed before.
\<close>

theorem renames_never_overwrite_witness:
  "distinct [''img2.png'', ''foo.txt'', ''img1.jpg'']
   \<and> renumber ''Mimosa_pudica'' [''img2.png'', ''foo.txt'', ''img1.jpg''] =
       Inr ([''Mimosa_pudica_02.png'', ''foo.txt'', ''Mimosa_pudica_01.jpg''], 3,
            [ImageRenamed ''img1.jpg'' ''Mimosa_pudica_01.jpg'',
             ImageRenamed ''img2.png'' ''Mimosa_pudica_02.png''])
   \<and> replay [''img2.png'', ''foo.txt'', ''img1.jpg'']
        [(''img1.jpg'', ''Mimosa_pudica_01.jpg''), (''img2.png'', ''Mimosa_pudica_02.png'')] =
       Some [''Mimosa_pudica_02.png'', ''foo.txt'', ''Mimosa_pudica_01.jpg'']
   \<and> distinct [''Mimosa_pudica_02.png'', ''foo.txt'', ''Mimosa_pudica_01.jpg'']
   \<and> renumber (replicate 252 CHR ''a'') [''img1.jpg''] =
       Inl (FileNameTooLong, [''img1.jpg''], 1, [])"
proof -
  let ?files = "[''img2.png'', ''foo.txt'', ''img1.jpg'']"
  let ?files' = "[''Mimosa_pudica_02.png'', ''foo.txt'', ''Mimosa_pudica_01.jpg'']"
  let ?printed = "[ImageRenamed ''img1.jpg'' ''Mimosa_pudica_01.jpg'',
             ImageRenamed ''img2.png'' ''Mimosa_pudica_02.png'']"
  have d: "distinct ?files" by simp
  have r: "renumber ''Mimosa_pudica'' ?files = Inr (?files', 3, ?printed)"
    by code_simp
  have long: "renumber (replicate 252 CHR ''a'') [''img1.jpg''] =
       Inl (FileNameTooLong, [''img1.jpg''], 1, [])"
    by code_simp
  from renames_never_overwrite[of "''Mimosa_pudica''" ?files]
  obtain files' contador' printed where
    t: "outcome_state (renumber ''Mimosa_pudica'' ?files) = (files', contador', printed)"
       "replay ?files (printed_renames printed) = Some files'"
       "distinct ?files \<longrightarrow> distinct files'"
    by blast
  have e: "files' = ?files'" "printed = ?printed"
    using t(1) unfolding r by (simp_all add: outcome_state_def)
  have "replay ?files (printed_renames ?printed) = Some ?files'" using t(2) unfolding e .
  then have p: "replay ?files
        [(''img1.jpg'', ''Mimosa_pudica_01.jpg''), (''img2.png'', ''Mimosa_pudica_02.png'')] =
       Some ?files'"
    by simp
  have d': "distinct ?files'" using t(3) d unfolding e by blast
  show ?thesis using d r p d' long by blast
qed

text \<open>
  Claim C4 as stated fails in its first half: the counter value 01 is given to
  \<open>foto.jpg\<close> although \<open>Ficus_benjamina_01.png\<close> carries it already; only the full new
  name, extension included, is tested.
\<close>

theorem counter_value_reused_with_other_extension:
  "renumber ''Ficus_benjamina'' [''Ficus_benjamina_01.png'', ''foto.jpg''] =
     Inr ([''Ficus_benjamina_01.png'', ''Ficus_benjamina_01.jpg''], 2,
          [AlreadyExists ''Ficus_benjamina_01.png'',
           ImageRenamed ''foto.jpg'' ''Ficus_benjamina_01.jpg''])
   \<and> nuevo_nombre ''Ficus_benjamina'' 1 ''foto.jpg'' = ''Ficus_benjamina_01.jpg''
   \<and> fst (splitext ''Ficus_benjamina_01.png'') = ''Ficus_benjamina'' @ ''_'' @ fmt02 1"
  by code_simp


section \<open>New names with different counters differ\<close>

text \<open>Reading a decimal numeral back, to tell the formatted counters apart.\<close>

definition digit_value :: "char \<Rightarrow> nat" where
  "digit_value c = of_char c - 48"

definition nat_of_string :: "string \<Rightarrow> nat" where
  "nat_of_string s = foldl (\<lambda>acc c. 10 * acc + digit_value c) 0 s"

lemma digit_value_char_of: "(d::nat) < 10 \<Longrightarrow> digit_value (char_of (48 + d)) = d"
  by (simp add: digit_value_def)

lemma nat_of_string_of_nat: "nat_of_string (string_of_nat n) = n"
proof (induction n rule: string_of_nat.induct)
  case (1 n)
  show ?case
  proof (cases "n < 10")
    case True
    then show ?thesis
      by (subst string_of_nat.simps) (simp add: nat_of_string_def digit_value_char_of)
  next
    case False
    have "nat_of_string (string_of_nat n) =
          10 * nat_of_string (string_of_nat (n div 10)) + digit_value (char_of (48 + n mod 10))"
      using False by (subst string_of_nat.simps) (simp add: nat_of_string_def)
    also have "\<dots> = 10 * (n div 10) + n mod 10"
      using "1.IH"[OF False] by (simp add: digit_value_char_of)
    finally show ?thesis by simp
  qed
qed

lemma nat_of_fmt02: "nat_of_string (fmt02 n) = n"
proof (cases "n < 10")
  case True
  have "nat_of_string (CHR ''0'' # string_of_nat n) = nat_of_string (string_of_nat n)"
    by (simp add: nat_of_string_def digit_value_def)
  then show ?thesis using True by (simp add: fmt02_def nat_of_string_of_nat)
next
  case False
  then show ?thesis by (simp add: fmt02_def nat_of_string_of_nat)
qed

lemma fmt02_inj: "fmt02 k = fmt02 j \<Longrightarrow> k = j"
proof -
  assume "fmt02 k = fmt02 j"
  then have "nat_of_string (fmt02 k) = nat_of_string (fmt02 j)" by (rule arg_cong)
  then show "k = j" by (simp only: nat_of_fmt02)
qed

lemma digit_not_dot: "(d::nat) < 10 \<Longrightarrow> char_of (48 + d) \<noteq> CHR ''.''"
proof
  assume d: "d < 10" and "char_of (48 + d) = CHR ''.''"
  then have "(of_char (char_of (48 + d)) :: nat) = of_char CHR ''.''" by simp
  then show False using d by simp
qed

lemma string_of_nat_no_dot: "CHR ''.'' \<notin> set (string_of_nat n)"
proof (induction n rule: string_of_nat.induct)
  case (1 n)
  show ?case
  proof (cases "n < 10")
    case True
    then show ?thesis using digit_not_dot[of n] by (subst string_of_nat.simps) auto
  next
    case False
    then show ?thesis using "1.IH" digit_not_dot[of "n mod 10"]
      by (subst string_of_nat.simps) auto
  qed
qed

lemma fmt02_no_dot: "CHR ''.'' \<notin> set (fmt02 n)"
  using string_of_nat_no_dot[of n] by (auto simp: fmt02_def)

lemma eligible_ext: "eligible f \<Longrightarrow> \<exists>r. ext_of f = CHR ''.'' # r"
  by (auto simp: eligible_def extensiones_validas_def)

lemma dot_split_unique:
  assumes "CHR ''.'' \<notin> set xs" "CHR ''.'' \<notin> set ys" "xs @ CHR ''.'' # r = ys @ CHR ''.'' # s"
  shows "xs = ys"
proof -
  have "takeWhile (\<lambda>c. c \<noteq> CHR ''.'') (xs @ CHR ''.'' # r) = xs"
    using assms(1) by (subst takeWhile_append2) auto
  moreover have "takeWhile (\<lambda>c. c \<noteq> CHR ''.'') (ys @ CHR ''.'' # s) = ys"
    using assms(2) by (subst takeWhile_append2) auto
  ultimately show ?thesis using assms(3) by simp
qed

lemma nuevo_nombre_inj:
  assumes "eligible f" "eligible g" "nuevo_nombre objetivo k f = nuevo_nombre objetivo j g"
  shows "k = j"
proof -
  obtain r s where e: "ext_of f = CHR ''.'' # r" "ext_of g = CHR ''.'' # s"
    using eligible_ext[OF assms(1)] eligible_ext[OF assms(2)] by auto
  have "fmt02 k @ CHR ''.'' # r = fmt02 j @ CHR ''.'' # s"
    using assms(3) e by (simp add: nuevo_nombre_def)
  then have "fmt02 k = fmt02 j" using fmt02_no_dot dot_split_unique by blast
  then show ?thesis by (rule fmt02_inj)
qed


section \<open>Which files are renumbered, and in which order\<close>



lemma lower_char_not_J: "lower_char c \<noteq> CHR ''J''"
proof
  assume a: "lower_char c = CHR ''J''"
  let ?n = "of_char c :: nat"
  show False
  proof (cases "(65 \<le> ?n \<and> ?n \<le> 90) \<or> (192 \<le> ?n \<and> ?n \<le> 222 \<and> ?n \<noteq> 215)")
    case True
    have "lower_char c = char_of (?n + 32)" unfolding lower_char_def Let_def using True by (simp only: if_True)
    then have "char_of (?n + 32) = CHR ''J''" using a by simp
    then have "(of_char (char_of (?n + 32)) :: nat) = of_char CHR ''J''" by simp
    then have "(?n + 32) mod 256 = 74" by simp
    then show False using True by auto
  next
    case False
    have "lower_char c = c" unfolding lower_char_def Let_def using False by (simp only: if_False)
    then have "c = CHR ''J''" using a by simp
    then show False using False by simp
  qed
qed

lemma eligible_cases:
  "eligible f \<Longrightarrow> ext_of f = ''.jpg'' \<or> ext_of f = ''.jpeg'' \<or> ext_of f = ''.png''"
proof -
  assume "eligible f"
  then have "ext_of f \<in> set [''.jpg'', ''.jpeg'', ''.png'', ''.JPG'']"
    by (simp add: eligible_def extensiones_validas_def)
  moreover have "ext_of f \<noteq> ''.JPG''"
  proof
    assume "ext_of f = ''.JPG''"
    then have "CHR ''J'' \<in> set (map lower_char (snd (splitext f)))"
      by (simp add: ext_of_def lower_def)
    then obtain x where "lower_char x = CHR ''J''" by auto
    then show False using lower_char_not_J[of x] by simp
  qed
  ultimately show ?thesis by auto
qed

lemma eligible_iff:
  "eligible f \<longleftrightarrow> ext_of f = ''.jpg'' \<or> ext_of f = ''.jpeg'' \<or> ext_of f = ''.png''"
  using eligible_cases[of f] by (auto simp: eligible_def extensiones_validas_def)

text \<open>
  The folder after the renames among the lines printed: each rename puts the new name
  in the place of the old one.
\<close>

definition folder_after :: "string list \<Rightarrow> event list \<Rightarrow> string list" where
  "folder_after files printed =
     foldl (\<lambda>folder (origen, destino). map (\<lambda>x. if x = origen then destino else x) folder)
       files (printed_renames printed)"

lemma folder_after_simps [simp]:
  "folder_after files [] = files"
  "folder_after files (ImageRenamed x y # evs) =
     folder_after (map (\<lambda>v. if v = x then y else v) files) evs"
  "folder_after files (AlreadyExists z # evs) = folder_after files evs"
  "folder_after files (NoMatch z # evs) = folder_after files evs"
  "folder_after files (FolderRenamed x y # evs) = folder_after files evs"
  by (simp_all add: folder_after_def)

text \<open>
  The line that the loop prints for the \<open>i\<close>-th file with an allowed extension, given the
  lines printed before it: the candidate name carries the counter the loop started with
  plus the number of renames made so far; the file is skipped when the candidate is in
  the folder at that moment and renamed otherwise.
\<close>

definition expected_line :: "string \<Rightarrow> string list \<Rightarrow> string list \<Rightarrow> nat \<Rightarrow> event list \<Rightarrow> nat \<Rightarrow> event" where
  "expected_line objetivo elegibles files c printed i =
     (let archivo = elegibles ! i;
          nuevo = nuevo_nombre objetivo (c + length (printed_renames (take i printed))) archivo
      in if nuevo \<in> set (folder_after files (take i printed))
         then AlreadyExists nuevo else ImageRenamed archivo nuevo)"

lemma expected_line_0:
  "expected_line objetivo (a # els) files c printed 0 =
     (if nuevo_nombre objetivo c a \<in> set files then AlreadyExists (nuevo_nombre objetivo c a)
      else ImageRenamed a (nuevo_nombre objetivo c a))"
  by (simp add: expected_line_def)

lemma expected_line_Suc_skip:
  "expected_line objetivo (a # els) files c (AlreadyExists z # printed) (Suc i) =
     expected_line objetivo els files c printed i"
  by (simp add: expected_line_def)

lemma expected_line_Suc_rename:
  "expected_line objetivo (a # els) files c (ImageRenamed x y # printed) (Suc i) =
     expected_line objetivo els (map (\<lambda>v. if v = x then y else v) files) (Suc c) printed i"
  by (simp add: expected_line_def)

text \<open>
  What the lines printed by the loop are, for the list of the files with an allowed
  extension in the order of the loop, and how the loop ends.
\<close>

definition loop_trace ::
  "string \<Rightarrow> string list \<Rightarrow> string list \<Rightarrow> nat \<Rightarrow> (os_error \<times> loop_state) + loop_state \<Rightarrow>
   string list \<Rightarrow> nat \<Rightarrow> event list \<Rightarrow> bool" where
  "loop_trace objetivo elegibles files c run files' c' printed \<longleftrightarrow>
     files' = folder_after files printed
     \<and> c' = c + length (printed_renames printed)
     \<and> length printed \<le> length elegibles
     \<and> (\<forall>i<length printed. printed ! i = expected_line objetivo elegibles files c printed i)
     \<and> (\<forall>e st. run = Inl (e, st) \<longrightarrow>
          length printed < length elegibles
          \<and> (let archivo = elegibles ! length printed;
                 nuevo = nuevo_nombre objetivo c' archivo
             in nuevo \<notin> set files' \<and> rename_entry files' archivo nuevo = Inl e))
     \<and> (\<forall>st. run = Inr st \<longrightarrow> length printed = length elegibles)"

lemma loop_trace_done: "loop_trace objetivo [] files c (Inr st) files c []"
  by (simp add: loop_trace_def)

lemma loop_trace_refused:
  assumes "nuevo_nombre objetivo c a \<notin> set files"
    and "rename_entry files a (nuevo_nombre objetivo c a) = Inl e"
  shows "loop_trace objetivo (a # els) files c (Inl (e, st)) files c []"
  using assms by (simp add: loop_trace_def)

lemma loop_trace_skip:
  assumes "loop_trace objetivo els files c run files' c' printed"
    and "nuevo_nombre objetivo c a \<in> set files"
  shows "loop_trace objetivo (a # els) files c run files' c'
           (AlreadyExists (nuevo_nombre objetivo c a) # printed)"
proof -
  let ?ev = "AlreadyExists (nuevo_nombre objetivo c a)"
  have t: "files' = folder_after files printed" "c' = c + length (printed_renames printed)"
    "length printed \<le> length els"
    "\<forall>i<length printed. printed ! i = expected_line objetivo els files c printed i"
    "\<forall>e st. run = Inl (e, st) \<longrightarrow>
          length printed < length els
          \<and> (let archivo = els ! length printed;
                 nuevo = nuevo_nombre objetivo c' archivo
             in nuevo \<notin> set files' \<and> rename_entry files' archivo nuevo = Inl e)"
    "\<forall>st. run = Inr st \<longrightarrow> length printed = length els"
    using assms(1) unfolding loop_trace_def by blast+
  have l: "\<forall>i<length (?ev # printed).
             (?ev # printed) ! i = expected_line objetivo (a # els) files c (?ev # printed) i"
  proof (intro allI impI)
    fix i assume i: "i < length (?ev # printed)"
    show "(?ev # printed) ! i = expected_line objetivo (a # els) files c (?ev # printed) i"
    proof (cases i)
      case 0
      then show ?thesis using assms(2) by (simp add: expected_line_0)
    next
      case (Suc j)
      then have "j < length printed" using i by simp
      then show ?thesis using t(4) Suc by (simp add: expected_line_Suc_skip)
    qed
  qed
  show ?thesis
    unfolding loop_trace_def
  proof (intro conjI)
    show "files' = folder_after files (?ev # printed)" using t(1) by simp
    show "c' = c + length (printed_renames (?ev # printed))" using t(2) by simp
    show "length (?ev # printed) \<le> length (a # els)" using t(3) by simp
    show "\<forall>i<length (?ev # printed).
             (?ev # printed) ! i = expected_line objetivo (a # els) files c (?ev # printed) i"
      by (rule l)
    show "\<forall>e st. run = Inl (e, st) \<longrightarrow>
          length (?ev # printed) < length (a # els)
          \<and> (let archivo = (a # els) ! length (?ev # printed);
                 nuevo = nuevo_nombre objetivo c' archivo
             in nuevo \<notin> set files' \<and> rename_entry files' archivo nuevo = Inl e)"
      using t(5) by simp
    show "\<forall>st. run = Inr st \<longrightarrow> length (?ev # printed) = length (a # els)"
      using t(6) by simp
  qed
qed

lemma loop_trace_rename:
  assumes "loop_trace objetivo els (map (\<lambda>v. if v = a then nuevo_nombre objetivo c a else v) files)
             (Suc c) run files' c' printed"
    and "nuevo_nombre objetivo c a \<notin> set files"
  shows "loop_trace objetivo (a # els) files c run files' c'
           (ImageRenamed a (nuevo_nombre objetivo c a) # printed)"
proof -
  let ?nuevo = "nuevo_nombre objetivo c a"
  let ?ev = "ImageRenamed a ?nuevo"
  let ?files1 = "map (\<lambda>v. if v = a then ?nuevo else v) files"
  have t: "files' = folder_after ?files1 printed" "c' = Suc c + length (printed_renames printed)"
    "length printed \<le> length els"
    "\<forall>i<length printed. printed ! i = expected_line objetivo els ?files1 (Suc c) printed i"
    "\<forall>e st. run = Inl (e, st) \<longrightarrow>
          length printed < length els
          \<and> (let archivo = els ! length printed;
                 nuevo = nuevo_nombre objetivo c' archivo
             in nuevo \<notin> set files' \<and> rename_entry files' archivo nuevo = Inl e)"
    "\<forall>st. run = Inr st \<longrightarrow> length printed = length els"
    using assms(1) unfolding loop_trace_def by blast+
  have l: "\<forall>i<length (?ev # printed).
             (?ev # printed) ! i = expected_line objetivo (a # els) files c (?ev # printed) i"
  proof (intro allI impI)
    fix i assume i: "i < length (?ev # printed)"
    show "(?ev # printed) ! i = expected_line objetivo (a # els) files c (?ev # printed) i"
    proof (cases i)
      case 0
      then show ?thesis using assms(2) by (simp add: expected_line_0)
    next
      case (Suc j)
      then have "j < length printed" using i by simp
      then show ?thesis using t(4) Suc by (simp add: expected_line_Suc_rename)
    qed
  qed
  show ?thesis
    unfolding loop_trace_def
  proof (intro conjI)
    show "files' = folder_after files (?ev # printed)" using t(1) by simp
    show "c' = c + length (printed_renames (?ev # printed))" using t(2) by simp
    show "length (?ev # printed) \<le> length (a # els)" using t(3) by simp
    show "\<forall>i<length (?ev # printed).
             (?ev # printed) ! i = expected_line objetivo (a # els) files c (?ev # printed) i"
      by (rule l)
    show "\<forall>e st. run = Inl (e, st) \<longrightarrow>
          length (?ev # printed) < length (a # els)
          \<and> (let archivo = (a # els) ! length (?ev # printed);
                 nuevo = nuevo_nombre objetivo c' archivo
             in nuevo \<notin> set files' \<and> rename_entry files' archivo nuevo = Inl e)"
      using t(5) by simp
    show "\<forall>st. run = Inr st \<longrightarrow> length (?ev # printed) = length (a # els)"
      using t(6) by simp
  qed
qed

lemma rename_images_trace:
  "\<exists>files' c' printed.
     outcome_state (rename_images objetivo imagenes (files, c, out)) = (files', c', out @ printed)
     \<and> loop_trace objetivo (filter eligible imagenes) files c
         (rename_images objetivo imagenes (files, c, out)) files' c' printed"
proof (induction imagenes arbitrary: files c out)
  case Nil
  have "outcome_state (rename_images objetivo [] (files, c, out)) = (files, c, out @ [])"
    by (simp add: outcome_state_def)
  moreover have "loop_trace objetivo (filter eligible []) files c
         (rename_images objetivo [] (files, c, out)) files c []"
    by (simp add: loop_trace_done)
  ultimately show ?case by blast
next
  case (Cons archivo imagenes)
  let ?nuevo = "nuevo_nombre objetivo c archivo"
  show ?case
  proof (cases "eligible archivo")
    case False
    from Cons.IH[of files c out] show ?thesis using False by simp
  next
    case True
    show ?thesis
    proof (cases "?nuevo \<in> set files")
      case True
      have same: "rename_images objetivo (archivo # imagenes) (files, c, out) =
                  rename_images objetivo imagenes (files, c, out @ [AlreadyExists ?nuevo])"
        using \<open>eligible archivo\<close> True by simp
      from Cons.IH[of files c "out @ [AlreadyExists ?nuevo]"]
      obtain files' c' printed where
        ih: "outcome_state (rename_images objetivo imagenes (files, c, out @ [AlreadyExists ?nuevo])) =
               (files', c', (out @ [AlreadyExists ?nuevo]) @ printed)"
            "loop_trace objetivo (filter eligible imagenes) files c
               (rename_images objetivo imagenes (files, c, out @ [AlreadyExists ?nuevo])) files' c' printed"
        by blast
      have "outcome_state (rename_images objetivo (archivo # imagenes) (files, c, out)) =
              (files', c', out @ (AlreadyExists ?nuevo # printed))"
        unfolding same using ih(1) by simp
      moreover have "loop_trace objetivo (filter eligible (archivo # imagenes)) files c
           (rename_images objetivo (archivo # imagenes) (files, c, out)) files' c'
           (AlreadyExists ?nuevo # printed)"
        unfolding same using loop_trace_skip[OF ih(2) True] \<open>eligible archivo\<close> by simp
      ultimately show ?thesis by blast
    next
      case False
      show ?thesis
      proof (cases "rename_entry files archivo ?nuevo")
        case (Inl e)
        have run: "rename_images objetivo (archivo # imagenes) (files, c, out) = Inl (e, files, c, out)"
          using \<open>eligible archivo\<close> False Inl by simp
        have "outcome_state (rename_images objetivo (archivo # imagenes) (files, c, out)) =
                (files, c, out @ [])"
          unfolding run by (simp add: outcome_state_def)
        moreover have "loop_trace objetivo (filter eligible (archivo # imagenes)) files c
           (rename_images objetivo (archivo # imagenes) (files, c, out)) files c []"
          unfolding run using loop_trace_refused[OF False Inl] \<open>eligible archivo\<close> by simp
        ultimately show ?thesis by blast
      next
        case (Inr files1)
        have f1: "files1 = map (\<lambda>v. if v = archivo then ?nuevo else v) files"
          using rename_entry_fresh[OF Inr False] .
        have same: "rename_images objetivo (archivo # imagenes) (files, c, out) =
                    rename_images objetivo imagenes (files1, Suc c, out @ [ImageRenamed archivo ?nuevo])"
          using \<open>eligible archivo\<close> False Inr by simp
        from Cons.IH[of files1 "Suc c" "out @ [ImageRenamed archivo ?nuevo]"]
        obtain files' c' printed where
          ih: "outcome_state (rename_images objetivo imagenes
                 (files1, Suc c, out @ [ImageRenamed archivo ?nuevo])) =
                 (files', c', (out @ [ImageRenamed archivo ?nuevo]) @ printed)"
              "loop_trace objetivo (filter eligible imagenes) files1 (Suc c)
                 (rename_images objetivo imagenes (files1, Suc c, out @ [ImageRenamed archivo ?nuevo]))
                 files' c' printed"
          by blast
        have "outcome_state (rename_images objetivo (archivo # imagenes) (files, c, out)) =
                (files', c', out @ (ImageRenamed archivo ?nuevo # printed))"
          unfolding same using ih(1) by simp
        moreover have "loop_trace objetivo (filter eligible (archivo # imagenes)) files c
             (rename_images objetivo (archivo # imagenes) (files, c, out)) files' c'
             (ImageRenamed archivo ?nuevo # printed)"
          unfolding same using loop_trace_rename[OF ih(2)[unfolded f1] False] \<open>eligible archivo\<close>
          by (simp add: f1)
        ultimately show ?thesis by blast
      qed
    qed
  qed
qed

lemma printed_renames_mem:
  "(x, y) \<in> set (printed_renames printed) \<longleftrightarrow> ImageRenamed x y \<in> set printed"
proof (induction printed)
  case Nil
  then show ?case by simp
next
  case (Cons ev printed)
  then show ?case by (cases ev) auto
qed

lemma loop_trace_sources:
  assumes "loop_trace objetivo els files c run files' c' printed"
    and "(x, y) \<in> set (printed_renames printed)"
  shows "x \<in> set els"
proof -
  have "ImageRenamed x y \<in> set printed" using assms(2) by (simp add: printed_renames_mem)
  then obtain i where i: "i < length printed" "printed ! i = ImageRenamed x y"
    by (auto simp: in_set_conv_nth)
  have "printed ! i = expected_line objetivo els files c printed i" "length printed \<le> length els"
    using assms(1) i(1) unfolding loop_trace_def by blast+
  then have "x = els ! i" "i < length els"
    using i by (auto simp: expected_line_def Let_def split: if_splits)
  then show ?thesis by simp
qed

lemma folder_after_keeps:
  "f \<in> set files \<Longrightarrow> f \<notin> fst ` set (printed_renames printed) \<Longrightarrow>
   f \<in> set (folder_after files printed)"
proof (induction printed arbitrary: files)
  case Nil
  then show ?case by simp
next
  case (Cons ev printed)
  show ?case
  proof (cases ev)
    case (ImageRenamed x y)
    then have "f \<noteq> x" "f \<notin> fst ` set (printed_renames printed)" using Cons.prems(2) by auto
    moreover from this have "f \<in> set (map (\<lambda>v. if v = x then y else v) files)"
      using Cons.prems(1) by auto
    ultimately show ?thesis using Cons.IH ImageRenamed by simp
  next
    case (NoMatch z)
    then show ?thesis using Cons by simp
  next
    case (FolderRenamed x y)
    then show ?thesis using Cons by simp
  next
    case (AlreadyExists z)
    then show ?thesis using Cons by simp
  qed
qed

lemma rename_images_all_renamed:
  assumes "\<forall>x\<in>set files. (\<forall>k g. eligible g \<longrightarrow> x \<noteq> nuevo_nombre objetivo k g)
                         \<or> (\<exists>j<c. \<exists>g. eligible g \<and> x = nuevo_nombre objetivo j g)"
    and "outcome_state (rename_images objetivo imagenes (files, c, out)) = (files', c', out')"
  shows "c \<le> c' \<and>
         out' = out @ map2 (\<lambda>k f. ImageRenamed f (nuevo_nombre objetivo k f))
                        [c..<c'] (filter eligible imagenes)"
  using assms
proof (induction imagenes arbitrary: files c out)
  case Nil
  then show ?case by (simp add: outcome_state_def)
next
  case (Cons archivo imagenes)
  let ?nuevo = "nuevo_nombre objetivo c archivo"
  show ?case
  proof (cases "eligible archivo")
    case False
    from Cons.IH[OF Cons.prems(1), of out] False Cons.prems(2) show ?thesis by simp
  next
    case True
    have free: "?nuevo \<notin> set files"
    proof
      assume "?nuevo \<in> set files"
      with Cons.prems(1) have "(\<forall>k g. eligible g \<longrightarrow> ?nuevo \<noteq> nuevo_nombre objetivo k g)
          \<or> (\<exists>j<c. \<exists>g. eligible g \<and> ?nuevo = nuevo_nombre objetivo j g)" by blast
      then show False
      proof
        assume "\<forall>k g. eligible g \<longrightarrow> ?nuevo \<noteq> nuevo_nombre objetivo k g"
        with True show False by blast
      next
        assume "\<exists>j<c. \<exists>g. eligible g \<and> ?nuevo = nuevo_nombre objetivo j g"
        then obtain j g where j: "j < c" "eligible g" "?nuevo = nuevo_nombre objetivo j g" by blast
        from nuevo_nombre_inj[OF True j(2) j(3)] j(1) show False by simp
      qed
    qed
    show ?thesis
    proof (cases "rename_entry files archivo ?nuevo")
      case (Inl e)
      then have "outcome_state (rename_images objetivo (archivo # imagenes) (files, c, out)) =
                   (files, c, out)"
        using True free by (simp add: outcome_state_def)
      then have "c' = c" "out' = out" using Cons.prems(2) by simp_all
      then show ?thesis by simp
    next
      case (Inr files1)
      have f1: "files1 = map (\<lambda>x. if x = archivo then ?nuevo else x) files"
        using rename_entry_fresh[OF Inr free] .
      have inv1: "\<forall>x\<in>set files1. (\<forall>k g. eligible g \<longrightarrow> x \<noteq> nuevo_nombre objetivo k g)
                         \<or> (\<exists>j<c + 1. \<exists>g. eligible g \<and> x = nuevo_nombre objetivo j g)"
      proof
        fix x assume "x \<in> set files1"
        then have "x = ?nuevo \<or> x \<in> set files" unfolding f1 by auto
        then show "(\<forall>k g. eligible g \<longrightarrow> x \<noteq> nuevo_nombre objetivo k g)
                         \<or> (\<exists>j<c + 1. \<exists>g. eligible g \<and> x = nuevo_nombre objetivo j g)"
        proof
          assume "x = ?nuevo"
          then have "\<exists>j<c + 1. \<exists>g. eligible g \<and> x = nuevo_nombre objetivo j g"
            using True by (intro exI[of _ c] conjI exI[of _ archivo]) simp_all
          then show ?thesis ..
        next
          assume "x \<in> set files"
          with Cons.prems(1) have "(\<forall>k g. eligible g \<longrightarrow> x \<noteq> nuevo_nombre objetivo k g)
            \<or> (\<exists>j<c. \<exists>g. eligible g \<and> x = nuevo_nombre objetivo j g)" by blast
          then show ?thesis
          proof
            assume "\<forall>k g. eligible g \<longrightarrow> x \<noteq> nuevo_nombre objetivo k g"
            then show ?thesis ..
          next
            assume "\<exists>j<c. \<exists>g. eligible g \<and> x = nuevo_nombre objetivo j g"
            then obtain j g where "j < c" "eligible g" "x = nuevo_nombre objetivo j g" by blast
            then have "j < c + 1 \<and> eligible g \<and> x = nuevo_nombre objetivo j g" by simp
            then show ?thesis by blast
          qed
        qed
      qed
      have run1: "outcome_state (rename_images objetivo imagenes
                    (files1, c + 1, out @ [ImageRenamed archivo ?nuevo])) = (files', c', out')"
        using Cons.prems(2) True free Inr by simp
      from Cons.IH[OF inv1 run1]
      have ih: "c + 1 \<le> c'"
        "out' = (out @ [ImageRenamed archivo ?nuevo]) @
                map2 (\<lambda>k f. ImageRenamed f (nuevo_nombre objetivo k f))
                  [c + 1..<c'] (filter eligible imagenes)"
        by simp_all
      have u: "[c..<c'] = c # [c + 1..<c']"
        using ih(1) upt_conv_Cons[of c c'] by simp
      show ?thesis unfolding u using ih True by simp
    qed
  qed
qed

text \<open>
  Claim C7, as amended. The files with an allowed extension are those whose extension,
  put in lower case, is \<open>.jpg\<close>, \<open>.jpeg\<close> or \<open>.png\<close>. The renumbering of a folder
  prints one line for each of them, in ascending order of the names, up to the file
  where it ends. The line of the i-th such file is about its candidate name,
  made with the counter 1 plus the number of renames before it: a skip exactly when the
  candidate is in the folder at that moment, which is the folder after the renames made
  so far, and otherwise the rename of the file to the candidate. The loop ends by an
  exception only where \<open>os.rename\<close> refuses to rename a file whose candidate is free,
  and the lines then cover the files before that one; when it ends normally every such
  file has its line. Every file with another extension is still in the folder. When no
  file of the folder bears a name of the form given by the renumbering, every line is a
  rename, with the counters 1, 2, ... in ascending order of the original names.
\<close>

theorem eligible_files_renumbered_in_order:
  "\<exists>files' contador' printed.
     outcome_state (renumber objetivo files) = (files', contador', printed)
     \<and> files' = folder_after files printed
     \<and> contador' = Suc (length (printed_renames printed))
     \<and> length printed \<le> length (filter eligible (sort files))
     \<and> (\<forall>i<length printed.
          printed ! i =
            (let archivo = filter eligible (sort files) ! i;
                 nuevo = nuevo_nombre objetivo (Suc (length (printed_renames (take i printed)))) archivo
             in if nuevo \<in> set (folder_after files (take i printed))
                then AlreadyExists nuevo else ImageRenamed archivo nuevo))
     \<and> (\<forall>e st. renumber objetivo files = Inl (e, st) \<longrightarrow>
          length printed < length (filter eligible (sort files))
          \<and> (let archivo = filter eligible (sort files) ! length printed;
                 nuevo = nuevo_nombre objetivo contador' archivo
             in nuevo \<notin> set files' \<and> rename_entry files' archivo nuevo = Inl e))
     \<and> (\<forall>st. renumber objetivo files = Inr st \<longrightarrow>
          length printed = length (filter eligible (sort files)))
     \<and> (\<forall>f\<in>set files. \<not> eligible f \<longrightarrow> f \<in> set files')
     \<and> ((\<forall>f\<in>set files. \<forall>k g. eligible g \<longrightarrow> f \<noteq> nuevo_nombre objetivo k g) \<longrightarrow>
          printed = map2 (\<lambda>k f. ImageRenamed f (nuevo_nombre objetivo k f))
                      [1..<contador'] (filter eligible (sort files)))
     \<and> (\<forall>f. eligible f \<longleftrightarrow>
              lower (snd (splitext f)) \<in> {''.jpg'', ''.jpeg'', ''.png''})"
proof -
  let ?els = "filter eligible (sort files)"
  have ext: "\<forall>f. eligible f \<longleftrightarrow> lower (snd (splitext f)) \<in> {''.jpg'', ''.jpeg'', ''.png''}"
    using eligible_iff by (simp add: ext_of_def)
  from rename_images_trace[of objetivo "sort files" files 1 "[]"]
  obtain files' contador' printed where
    o: "outcome_state (renumber objetivo files) = (files', contador', printed)"
    and t: "loop_trace objetivo ?els files 1 (renumber objetivo files) files' contador' printed"
    by (auto simp: renumber_def)
  have t1: "files' = folder_after files printed"
    and t2': "contador' = 1 + length (printed_renames printed)"
    and t3: "length printed \<le> length ?els"
    and t4: "\<forall>i<length printed. printed ! i = expected_line objetivo ?els files 1 printed i"
    and t5: "\<forall>e st. renumber objetivo files = Inl (e, st) \<longrightarrow>
          length printed < length ?els
          \<and> (let archivo = ?els ! length printed;
                 nuevo = nuevo_nombre objetivo contador' archivo
             in nuevo \<notin> set files' \<and> rename_entry files' archivo nuevo = Inl e)"
    and t6: "\<forall>st. renumber objetivo files = Inr st \<longrightarrow> length printed = length ?els"
    using t unfolding loop_trace_def by blast+
  have t2: "contador' = Suc (length (printed_renames printed))" using t2' by simp
  have lines: "\<forall>i<length printed.
          printed ! i =
            (let archivo = ?els ! i;
                 nuevo = nuevo_nombre objetivo (Suc (length (printed_renames (take i printed)))) archivo
             in if nuevo \<in> set (folder_after files (take i printed))
                then AlreadyExists nuevo else ImageRenamed archivo nuevo)"
    using t4 by (simp add: expected_line_def)
  have other: "\<forall>f\<in>set files. \<not> eligible f \<longrightarrow> f \<in> set files'"
  proof (intro ballI impI)
    fix f assume f: "f \<in> set files" "\<not> eligible f"
    have "f \<notin> fst ` set (printed_renames printed)"
    proof
      assume "f \<in> fst ` set (printed_renames printed)"
      then obtain y where "(f, y) \<in> set (printed_renames printed)" by auto
      from loop_trace_sources[OF t this] have "f \<in> set ?els" .
      then show False using f(2) by simp
    qed
    then show "f \<in> set files'" unfolding t1 using f(1) by (rule folder_after_keeps[rotated])
  qed
  have all: "printed = map2 (\<lambda>k f. ImageRenamed f (nuevo_nombre objetivo k f)) [1..<contador'] ?els"
    if h: "\<forall>f\<in>set files. \<forall>k g. eligible g \<longrightarrow> f \<noteq> nuevo_nombre objetivo k g"
  proof -
    have a1: "\<forall>x\<in>set files. (\<forall>k g. eligible g \<longrightarrow> x \<noteq> nuevo_nombre objetivo k g)
                         \<or> (\<exists>j<1. \<exists>g. eligible g \<and> x = nuevo_nombre objetivo j g)"
      using h by blast
    have "outcome_state (rename_images objetivo (sort files) (files, 1, [])) = (files', contador', printed)"
      using o by (simp add: renumber_def)
    from rename_images_all_renamed[OF a1 this] show ?thesis by simp
  qed
  show ?thesis
    using o t1 t2 t3 lines t5 t6 other all ext
    by (intro exI[of _ files'] exI[of _ contador'] exI[of _ printed]) blast
qed

text \<open>
  The amended claim on the folder of the example: both images are renamed, \<open>foo.txt\<close>
  stays.
\<close>

theorem eligible_files_renumbered_in_order_witness:
  "renumber ''Mimosa_pudica'' [''img1.jpg'', ''img2.png'', ''foo.txt''] =
       Inr ([''Mimosa_pudica_01.jpg'', ''Mimosa_pudica_02.png'', ''foo.txt''], 3,
            [ImageRenamed ''img1.jpg'' ''Mimosa_pudica_01.jpg'',
             ImageRenamed ''img2.png'' ''Mimosa_pudica_02.png''])
   \<and> [ImageRenamed ''img1.jpg'' ''Mimosa_pudica_01.jpg'',
       ImageRenamed ''img2.png'' ''Mimosa_pudica_02.png''] =
      map2 (\<lambda>k f. ImageRenamed f (nuevo_nombre ''Mimosa_pudica'' k f))
        [1..<3] (filter eligible (sort [''img1.jpg'', ''img2.png'', ''foo.txt'']))
   \<and> length [ImageRenamed ''img1.jpg'' ''Mimosa_pudica_01.jpg'',
       ImageRenamed ''img2.png'' ''Mimosa_pudica_02.png''] =
      length (filter eligible (sort [''img1.jpg'', ''img2.png'', ''foo.txt'']))
   \<and> \<not> eligible ''foo.txt''
   \<and> ''foo.txt'' \<in> set [''Mimosa_pudica_01.jpg'', ''Mimosa_pudica_02.png'', ''foo.txt'']"
proof -
  let ?files = "[''img1.jpg'', ''img2.png'', ''foo.txt'']"
  let ?files' = "[''Mimosa_pudica_01.jpg'', ''Mimosa_pudica_02.png'', ''foo.txt'']"
  let ?printed = "[ImageRenamed ''img1.jpg'' ''Mimosa_pudica_01.jpg'',
             ImageRenamed ''img2.png'' ''Mimosa_pudica_02.png'']"
  have r: "renumber ''Mimosa_pudica'' ?files = Inr (?files', 3, ?printed)"
    by code_simp
  have h: "\<forall>f\<in>set ?files. \<forall>k g. eligible g \<longrightarrow> f \<noteq> nuevo_nombre ''Mimosa_pudica'' k g"
    by (simp add: nuevo_nombre_def)
  have n: "\<not> eligible ''foo.txt''" by code_simp
  from eligible_files_renumbered_in_order[of "''Mimosa_pudica''" ?files]
  obtain files' contador' printed where
    t: "outcome_state (renumber ''Mimosa_pudica'' ?files) = (files', contador', printed)"
       "\<forall>st. renumber ''Mimosa_pudica'' ?files = Inr st \<longrightarrow>
          length printed = length (filter eligible (sort ?files))"
       "\<forall>f\<in>set ?files. \<not> eligible f \<longrightarrow> f \<in> set files'"
       "(\<forall>f\<in>set ?files. \<forall>k g. eligible g \<longrightarrow> f \<noteq> nuevo_nombre ''Mimosa_pudica'' k g) \<longrightarrow>
          printed = map2 (\<lambda>k f. ImageRenamed f (nuevo_nombre ''Mimosa_pudica'' k f))
                      [1..<contador'] (filter eligible (sort ?files))"
    by blast
  have e: "files' = ?files'" "contador' = 3" "printed = ?printed"
    using t(1) unfolding r by (simp_all add: outcome_state_def)
  have a: "?printed = map2 (\<lambda>k f. ImageRenamed f (nuevo_nombre ''Mimosa_pudica'' k f))
        [1..<3] (filter eligible (sort ?files))"
    using t(4) h unfolding e by blast
  have b: "length ?printed = length (filter eligible (sort ?files))"
    using t(2) r unfolding e by blast
  have c: "''foo.txt'' \<in> set ?files'"
    using t(3) n unfolding e by simp
  show ?thesis using r a b n c by blast
qed

text \<open>
  Claim C7 as stated fails: \<open>foto.jpg\<close> has an allowed extension and is not renumbered,
  because the name \<open>Ficus_benjamina_01.jpg\<close> exists.
\<close>

theorem eligible_file_not_renumbered:
  "eligible ''foto.jpg''
   \<and> renumber ''Ficus_benjamina'' [''Ficus_benjamina_01.jpg'', ''foto.jpg''] =
       Inr ([''Ficus_benjamina_01.jpg'', ''foto.jpg''], 1,
            [AlreadyExists ''Ficus_benjamina_01.jpg'', AlreadyExists ''Ficus_benjamina_01.jpg''])"
  by code_simp


section \<open>The similarity is 1 for equal names only\<close>






section \<open>A name is its own best match\<close>























section \<open>The extension of a new name\<close>










section \<open>A second pass over a folder with one extension\<close>







section \<open>Renaming the folder found\<close>





section \<open>How often a folder is renamed\<close>

text \<open>The folder renames among the printed lines.\<close>

definition folder_renames :: "event list \<Rightarrow> (string \<times> string) list" where
  "folder_renames out = concat (map (\<lambda>e. case e of FolderRenamed x y \<Rightarrow> [(x, y)] | _ \<Rightarrow> []) out)"

lemma folder_renames_append [simp]: "folder_renames (xs @ ys) = folder_renames xs @ folder_renames ys"
  by (simp add: folder_renames_def)

lemma folder_renames_simps [simp]:
  "folder_renames [] = []"
  "folder_renames (FolderRenamed x y # out) = (x, y) # folder_renames out"
  "folder_renames (ImageRenamed x y # out) = folder_renames out"
  "folder_renames (AlreadyExists z # out) = folder_renames out"
  "folder_renames (NoMatch z # out) = folder_renames out"
  by (simp_all add: folder_renames_def)








section \<open>Running the reconciliation a second time\<close>











lemma printed_renames_skips [simp]:
  "printed_renames (map (\<lambda>f. AlreadyExists (h f)) xs) = []"
  by (induction xs) simp_all

lemma folder_renames_skips [simp]:
  "folder_renames (map (\<lambda>f. AlreadyExists (h f)) xs) = []"
  by (induction xs) simp_all

subsection \<open>Folders that a step leaves alone\<close>







lemma listdir_in_cong:
  "map_of fs' k = map_of fs k \<Longrightarrow> listdir_in fs' k = listdir_in fs k"
  by (simp add: listdir_in_def)


















end
